theory Spec2Isabelle
  imports Complex_Main
begin

section \<open>Descent analysis of ski-touring routes (scripts/analyze-descents.js)\<close>

text \<open>
  The script ranks routes by their best descent. Every JavaScript number is modelled as a
  \<^typ>\<open>real\<close> (floating-point rounding, infinities and NaN are outside the model), an
  elevation that may be \<^verbatim>\<open>null\<close> as a \<^typ>\<open>real option\<close>, an array as a list and an array
  index or length as a \<^typ>\<open>nat\<close>.
\<close>

subsection \<open>Configuration\<close>

definition SMOOTH_WINDOW :: nat where
  "SMOOTH_WINDOW = 10"

definition MIN_DROP_M :: real where
  "MIN_DROP_M = 200"

definition MIN_CLIMB_TO_RESET :: real where
  "MIN_CLIMB_TO_RESET = 100"

definition STEEP_MIN_DEG :: real where
  "STEEP_MIN_DEG = 25"

definition STEEP_MAX_DEG :: real where
  "STEEP_MAX_DEG = 35"

definition CHUNK_DIST_M :: real where
  "CHUNK_DIST_M = 50"

definition MAX_DRIVE_KM :: real where
  "MAX_DRIVE_KM = 65"

subsection \<open>Samples\<close>

record point =
  lat :: real
  lon :: real
  ele :: "real option"

subsection \<open>smoothElevation\<close>

text \<open>
  The body of the inner \<^verbatim>\<open>for\<close> loop: a sample with an elevation adds to \<^verbatim>\<open>sum\<close> (here \<open>sumE\<close>)
  and \<^verbatim>\<open>count\<close>, a sample without one is passed over.
\<close>

fun windowAcc :: "point list \<Rightarrow> nat \<Rightarrow> real \<times> nat \<Rightarrow> real \<times> nat" where
  "windowAcc points j (sumE, count) =
     (case ele (points ! j) of
        None \<Rightarrow> (sumE, count)
      | Some e \<Rightarrow> (sumE + e, count + 1))"

text \<open>
  The callback of \<^verbatim>\<open>points.map\<close> at index \<open>i\<close>. The loop runs \<open>j\<close> from
  \<^verbatim>\<open>Math.max(0, i - window)\<close> up to and including
  \<^verbatim>\<open>Math.min(points.length - 1, i + window)\<close>; the callback is only called with
  \<open>i < length points\<close>, so every \<open>j\<close> of the loop is an index of the array.
\<close>

definition smoothAt :: "point list \<Rightarrow> nat \<Rightarrow> nat \<Rightarrow> real option" where
  "smoothAt points window i =
     (case ele (points ! i) of
        None \<Rightarrow> None
      | Some _ \<Rightarrow>
          (let lo = nat (max 0 (int i - int window));
               hi = min (length points - 1) (i + window);
               (sumE, count) = fold (windowAcc points) [lo..<Suc hi] (0, 0)
           in if count > 0 then Some (sumE / real count) else None))"

definition smoothElevation :: "point list \<Rightarrow> nat \<Rightarrow> real option list" where
  "smoothElevation points window = map (smoothAt points window) [0..<length points]"

text \<open>
  The window mean as the specification words it, for comparison with the code: the
  non-null elevations among the samples \<open>max 0 (i - W) .. min (n - 1) (i + W)\<close>, and their
  arithmetic mean, absent when the window holds no elevation.
\<close>

definition windowEles :: "point list \<Rightarrow> nat \<Rightarrow> nat \<Rightarrow> real list" where
  "windowEles points W i =
     List.map_filter (\<lambda>j. ele (points ! j))
       [nat (max 0 (int i - int W))..<Suc (min (length points - 1) (i + W))]"

definition spec_windowMean :: "point list \<Rightarrow> nat \<Rightarrow> nat \<Rightarrow> real option" where
  "spec_windowMean points W i =
     (if windowEles points W i = [] then None
      else Some (sum_list (windowEles points W i) / real (length (windowEles points W i))))"

subsection \<open>findDescentSegments\<close>

record segment =
  seg_peakI :: nat
  seg_troughI :: nat
  seg_drop :: real

text \<open>The local variables of the scan, with the array \<^verbatim>\<open>segments\<close> built so far.\<close>

record scan =
  peakI :: nat
  peakEle :: real
  troughI :: nat
  troughEle :: real
  segments :: "segment list"

text \<open>
  \<^verbatim>\<open>x || 0\<close> for a number or \<^verbatim>\<open>null\<close>: \<^verbatim>\<open>null\<close> and \<open>0\<close> are falsy and give \<open>0\<close>.
  The same value is what JavaScript arithmetic reads \<^verbatim>\<open>null\<close> as (\<^verbatim>\<open>null - x\<close> is \<open>0 - x\<close>).
\<close>

definition orZero :: "real option \<Rightarrow> real" where
  "orZero x = (case x of None \<Rightarrow> 0 | Some v \<Rightarrow> (if v = 0 then 0 else v))"

text \<open>\<^verbatim>\<open>smoothEle[0] || 0\<close>; on the empty array \<^verbatim>\<open>smoothEle[0]\<close> is \<^verbatim>\<open>undefined\<close>, falsy too.\<close>

definition firstOrZero :: "real option list \<Rightarrow> real" where
  "firstOrZero smoothEle = (case smoothEle of [] \<Rightarrow> 0 | x # _ \<Rightarrow> orZero x)"

definition scanInit :: "real option list \<Rightarrow> scan" where
  "scanInit smoothEle =
     \<lparr>peakI = 0, peakEle = firstOrZero smoothEle,
      troughI = 0, troughEle = firstOrZero smoothEle, segments = []\<rparr>"

text \<open>\<^verbatim>\<open>segments.push({ peakI, troughI, drop: peakEle - troughEle })\<close> under its guard.\<close>

definition pushIfSignificant :: "scan \<Rightarrow> segment list" where
  "pushIfSignificant st =
     (if peakEle st - troughEle st \<ge> MIN_DROP_M
      then segments st @
             [\<lparr>seg_peakI = peakI st, seg_troughI = troughI st,
               seg_drop = peakEle st - troughEle st\<rparr>]
      else segments st)"

text \<open>One iteration of the loop, at index \<open>i\<close> (the loop keeps \<open>i < length smoothEle\<close>).\<close>

definition scanStep :: "real option list \<Rightarrow> nat \<Rightarrow> scan \<Rightarrow> scan" where
  "scanStep smoothEle i st =
     (case smoothEle ! i of
        None \<Rightarrow> st
      | Some e \<Rightarrow>
          if e > peakEle st then
            st\<lparr>peakEle := e, peakI := i, troughEle := e, troughI := i\<rparr>
          else if e < troughEle st then
            st\<lparr>troughEle := e, troughI := i\<rparr>
          else if e > troughEle st + MIN_CLIMB_TO_RESET then
            \<lparr>peakI = i, peakEle = e, troughI = i, troughEle = e,
             segments = pushIfSignificant st\<rparr>
          else st)"

text \<open>The state after the iterations \<open>i = 1, \<dots>, n - 1\<close>.\<close>

definition scanUpto :: "real option list \<Rightarrow> nat \<Rightarrow> scan" where
  "scanUpto smoothEle n = fold (scanStep smoothEle) [1..<n] (scanInit smoothEle)"

definition findDescentSegments :: "real option list \<Rightarrow> segment list" where
  "findDescentSegments smoothEle = pushIfSignificant (scanUpto smoothEle (length smoothEle))"

text \<open>
  The first non-null sample of a series, as the specification names it: its index
  (counted from \<open>i\<close>) and its elevation.
\<close>

fun firstNonNullFrom :: "nat \<Rightarrow> real option list \<Rightarrow> (nat \<times> real) option" where
  "firstNonNullFrom i [] = None"
| "firstNonNullFrom i (None # xs) = firstNonNullFrom (Suc i) xs"
| "firstNonNullFrom i (Some e # xs) = Some (i, e)"

subsection \<open>Numbers, errors and array reads\<close>

text \<open>
  What the real-number model cannot hold is an error value: \<open>TypeError\<close> is the exception
  JavaScript throws on reading a property of \<^verbatim>\<open>undefined\<close> (a point index outside the
  array); \<open>NaN_value\<close> marks a computation in which \<^verbatim>\<open>NaN\<close> arises (arithmetic on
  \<^verbatim>\<open>undefined\<close>, or \<open>0 / 0\<close>): JavaScript goes on computing with it, the model stops
  there. Neither arises when the indices lie inside both arrays.
\<close>

datatype error = TypeError | NaN_value

definition bindE :: "error + 'a \<Rightarrow> ('a \<Rightarrow> error + 'b) \<Rightarrow> error + 'b" where
  "bindE m f = (case m of Inl e \<Rightarrow> Inl e | Inr x \<Rightarrow> f x)"

text \<open>A loop over a list whose body may fail: the first failure ends it.\<close>

fun foldE :: "('a \<Rightarrow> 's \<Rightarrow> error + 's) \<Rightarrow> 'a list \<Rightarrow> 's \<Rightarrow> error + 's" where
  "foldE f [] s = Inr s"
| "foldE f (x # xs) s = (case f x s of Inl e \<Rightarrow> Inl e | Inr s' \<Rightarrow> foldE f xs s')"

text \<open>\<^verbatim>\<open>smoothEle[i]\<close>: \<^verbatim>\<open>undefined\<close> outside the array, else \<^verbatim>\<open>null\<close> or a number.\<close>

datatype jsval = Undefined | Null | Num real

definition jsIndex :: "real option list \<Rightarrow> nat \<Rightarrow> jsval" where
  "jsIndex xs i =
     (if i < length xs then (case xs ! i of None \<Rightarrow> Null | Some v \<Rightarrow> Num v) else Undefined)"

text \<open>The number a value is read as by \<open>-\<close> and by \<^verbatim>\<open>Math.round\<close>.\<close>

definition toNumber :: "jsval \<Rightarrow> error + real" where
  "toNumber v = (case v of Undefined \<Rightarrow> Inl NaN_value | Null \<Rightarrow> Inr 0 | Num x \<Rightarrow> Inr x)"

definition jsSub :: "jsval \<Rightarrow> jsval \<Rightarrow> error + real" where
  "jsSub a b = bindE (toNumber a) (\<lambda>x. bindE (toNumber b) (\<lambda>y. Inr (x - y)))"

text \<open>\<^verbatim>\<open>Math.round\<close>: the nearest integer, a half rounded up.\<close>

definition js_round :: "real \<Rightarrow> real" where
  "js_round x = of_int \<lfloor>x + 1 / 2\<rfloor>"

definition jsRound :: "jsval \<Rightarrow> error + real" where
  "jsRound v = bindE (toNumber v) (\<lambda>x. Inr (js_round x))"

text \<open>\<^verbatim>\<open>Math.atan2(y, x)\<close> on real numbers.\<close>

definition js_atan2 :: "real \<Rightarrow> real \<Rightarrow> real" where
  "js_atan2 y x =
     (if x > 0 then arctan (y / x)
      else if x < 0 then (if y \<ge> 0 then arctan (y / x) + pi else arctan (y / x) - pi)
      else if y > 0 then pi / 2
      else if y < 0 then - (pi / 2)
      else 0)"

text \<open>
  \<^verbatim>\<open>Math.atan(a / b) * (180 / Math.PI)\<close> where the divisor may be 0: \<open>a / 0\<close> is an infinity
  of the sign of \<open>a\<close>, whose arc tangent is a quarter turn, and \<open>0 / 0\<close> is \<^verbatim>\<open>NaN\<close>.
\<close>

definition atanDeg :: "real \<Rightarrow> real \<Rightarrow> error + real" where
  "atanDeg a b =
     (if b = 0 then (if a = 0 then Inl NaN_value else if a > 0 then Inr 90 else Inr (- 90))
      else Inr (arctan (a / b) * (180 / pi)))"

subsection \<open>haversineKm\<close>

definition haversineKm :: "real \<Rightarrow> real \<Rightarrow> real \<Rightarrow> real \<Rightarrow> real" where
  "haversineKm lat1 lon1 lat2 lon2 =
     (let R = 6371;
          dLat = (lat2 - lat1) * pi / 180;
          dLon = (lon2 - lon1) * pi / 180;
          a = (sin (dLat / 2))\<^sup>2 +
              cos (lat1 * pi / 180) * cos (lat2 * pi / 180) * (sin (dLon / 2))\<^sup>2
      in R * 2 * js_atan2 (sqrt a) (sqrt (1 - a)))"

text \<open>
  \<^verbatim>\<open>segDist\<close> at loop index \<open>i\<close> (always at least 1): the hop from \<^verbatim>\<open>points[i - 1]\<close> to
  \<^verbatim>\<open>points[i]\<close> in metres; reading \<^verbatim>\<open>.lat\<close> of a point outside the array throws.
\<close>

definition hopM :: "point list \<Rightarrow> nat \<Rightarrow> error + real" where
  "hopM points i =
     (if i - 1 < length points \<and> i < length points
      then Inr (haversineKm (lat (points ! (i - 1))) (lon (points ! (i - 1)))
                  (lat (points ! i)) (lon (points ! i)) * 1000)
      else Inl TypeError)"

subsection \<open>findLongestSteepSegment\<close>

record chunk =
  ch_startI :: nat
  ch_endI :: nat
  ch_dist :: real
  ch_drop :: real
  ch_grad :: real

text \<open>The local variables of the chunk-building loop.\<close>

record chunking =
  chunks :: "chunk list"
  chunkStartI :: nat
  chunkDist :: real

text \<open>
  One iteration of the chunk-building loop. On the path that computes \<^verbatim>\<open>grad\<close> the
  divisor \<^verbatim>\<open>chunkDist\<close> is at least \<open>CHUNK_DIST_M\<close>.
\<close>

definition chunkStep :: "point list \<Rightarrow> real option list \<Rightarrow> nat \<Rightarrow> chunking \<Rightarrow> error + chunking" where
  "chunkStep points smoothEle i st =
     bindE (hopM points i) (\<lambda>segDist.
       if segDist > 2000 then Inr st
       else
         (let cd = chunkDist st + segDist in
          if cd \<ge> CHUNK_DIST_M then
            (let startEle = jsIndex smoothEle (chunkStartI st);
                 endEle = jsIndex smoothEle i
             in if startEle \<noteq> Null \<and> endEle \<noteq> Null \<and> cd > 0 then
                  bindE (jsSub startEle endEle) (\<lambda>d.
                    Inr \<lparr>chunks = chunks st @
                           [\<lparr>ch_startI = chunkStartI st, ch_endI = i, ch_dist = cd, ch_drop = d,
                             ch_grad = arctan (max 0 d / cd) * (180 / pi)\<rparr>],
                         chunkStartI = i, chunkDist = 0\<rparr>)
                else Inr (st\<lparr>chunkStartI := i, chunkDist := 0\<rparr>))
          else Inr (st\<lparr>chunkDist := cd\<rparr>)))"

definition buildChunks :: "point list \<Rightarrow> real option list \<Rightarrow> nat \<Rightarrow> nat \<Rightarrow> error + chunk list" where
  "buildChunks points smoothEle peakI' troughI' =
     bindE (foldE (chunkStep points smoothEle) [peakI' + 1..<troughI' + 1]
              \<lparr>chunks = [], chunkStartI = peakI', chunkDist = 0\<rparr>)
       (\<lambda>st. Inr (chunks st))"

text \<open>The local variables of the scan for the longest run of steep chunks.\<close>

record run =
  bestStart :: nat
  bestLen :: nat
  curStart :: nat
  curLen :: nat

definition inSteepBand :: "chunk \<Rightarrow> bool" where
  "inSteepBand c \<longleftrightarrow> ch_grad c \<ge> STEEP_MIN_DEG \<and> ch_grad c \<le> STEEP_MAX_DEG"

definition runStep :: "chunk list \<Rightarrow> nat \<Rightarrow> run \<Rightarrow> run" where
  "runStep cs c r =
     (if inSteepBand (cs ! c) then
        (let cst = (if curLen r = 0 then c else curStart r);
             cl = curLen r + 1
         in if cl > bestLen r
            then \<lparr>bestStart = cst, bestLen = cl, curStart = cst, curLen = cl\<rparr>
            else r\<lparr>curStart := cst, curLen := cl\<rparr>)
      else r\<lparr>curLen := 0\<rparr>)"

definition runUpto :: "chunk list \<Rightarrow> nat \<Rightarrow> run" where
  "runUpto cs n =
     fold (runStep cs) [0..<n] \<lparr>bestStart = 0, bestLen = 0, curStart = 0, curLen = 0\<rparr>"

definition longestSteepRun :: "chunk list \<Rightarrow> run" where
  "longestSteepRun cs = runUpto cs (length cs)"

record steep =
  ss_verticalDrop :: real
  ss_horizDistM :: real
  ss_avgGradientDeg :: real
  ss_startEle :: real
  ss_endEle :: real

text \<open>
  The second half of \<^verbatim>\<open>findLongestSteepSegment\<close>, from the chunk list on: the scan, the
  \<^verbatim>\<open>null\<close> return, and the aggregation of the selected chunks
  \<^verbatim>\<open>chunks.slice(bestStart, bestStart + bestLen)\<close>.
\<close>

definition steepFromChunks :: "real option list \<Rightarrow> chunk list \<Rightarrow> error + steep option" where
  "steepFromChunks smoothEle cs =
     (let r = longestSteepRun cs in
      if bestLen r = 0 then Inr None
      else
        (let steepChunks = take (bestLen r) (drop (bestStart r) cs);
             totalDist = fold (\<lambda>c s. s + ch_dist c) steepChunks 0;
             totalDrop = fold (\<lambda>c s. s + ch_drop c) steepChunks 0
         in if steepChunks = [] then Inl TypeError
            else
              bindE (atanDeg totalDrop totalDist) (\<lambda>avgGrad.
              bindE (jsRound (jsIndex smoothEle (ch_startI (steepChunks ! 0)))) (\<lambda>se.
              bindE (jsRound (jsIndex smoothEle
                       (ch_endI (steepChunks ! (length steepChunks - 1))))) (\<lambda>ee.
                Inr (Some \<lparr>ss_verticalDrop = js_round totalDrop,
                           ss_horizDistM = js_round totalDist,
                           ss_avgGradientDeg = js_round (avgGrad * 10) / 10,
                           ss_startEle = se, ss_endEle = ee\<rparr>))))))"

definition findLongestSteepSegment ::
    "point list \<Rightarrow> real option list \<Rightarrow> nat \<Rightarrow> nat \<Rightarrow> error + steep option" where
  "findLongestSteepSegment points smoothEle peakI' troughI' =
     bindE (buildChunks points smoothEle peakI' troughI') (steepFromChunks smoothEle)"

subsection \<open>analyzeDescentSegment\<close>

record analysis =
  verticalDrop :: real
  horizDistM :: real
  avgGradientDeg :: real
  an_peakEle :: real
  an_troughEle :: real
  steepSegment :: "steep option"

text \<open>One iteration of the distance loop: a hop of more than 2000 m is passed over.\<close>

definition horizStep :: "point list \<Rightarrow> nat \<Rightarrow> real \<Rightarrow> error + real" where
  "horizStep points i hdist =
     bindE (hopM points i) (\<lambda>segDist. if segDist > 2000 then Inr hdist else Inr (hdist + segDist))"

text \<open>
  Past the \<^verbatim>\<open>null\<close> return the divisor \<^verbatim>\<open>horizDistM\<close> is at least 10.
\<close>

definition analyzeDescentSegment ::
    "point list \<Rightarrow> real option list \<Rightarrow> nat \<Rightarrow> nat \<Rightarrow> error + analysis option" where
  "analyzeDescentSegment points smoothEle peakI' troughI' =
     bindE (foldE (horizStep points) [peakI' + 1..<troughI' + 1] 0) (\<lambda>hdist.
       if hdist < 10 then Inr None
       else
         bindE (jsSub (jsIndex smoothEle peakI') (jsIndex smoothEle troughI')) (\<lambda>vd.
         bindE (findLongestSteepSegment points smoothEle peakI' troughI') (\<lambda>ss.
         bindE (jsRound (jsIndex smoothEle peakI')) (\<lambda>pe.
         bindE (jsRound (jsIndex smoothEle troughI')) (\<lambda>te.
           Inr (Some \<lparr>verticalDrop = js_round vd,
                      horizDistM = js_round hdist,
                      avgGradientDeg = js_round (arctan (vd / hdist) * (180 / pi) * 10) / 10,
                      an_peakEle = pe, an_troughEle = te,
                      steepSegment = ss\<rparr>))))))"

text \<open>
  The usable horizontal distance of a span as the specification words it: the sum of the
  point-to-point hops of the span, the hops of more than 2000 m left out.
\<close>

definition hopDist :: "point list \<Rightarrow> nat \<Rightarrow> real" where
  "hopDist points i =
     haversineKm (lat (points ! (i - 1))) (lon (points ! (i - 1)))
       (lat (points ! i)) (lon (points ! i)) * 1000"

definition usableDistance :: "point list \<Rightarrow> nat \<Rightarrow> nat \<Rightarrow> real" where
  "usableDistance points p t =
     sum_list (filter (\<lambda>d. \<not> d > 2000) (map (hopDist points) [p + 1..<t + 1]))"

definition returnsAnalysis :: "error + analysis option \<Rightarrow> bool" where
  "returnsAnalysis r = (case r of Inr (Some a) \<Rightarrow> True | _ \<Rightarrow> False)"

subsection \<open>descentScore\<close>

definition descentScore :: "analysis option \<Rightarrow> real" where
  "descentScore a =
     (case a of
        None \<Rightarrow> 0
      | Some an \<Rightarrow>
          (let s1 = 0 + min (verticalDrop an) 1200 / 12;
               gradDiff = \<bar>avgGradientDeg an - 30\<bar>;
               s2 = s1 + max 0 (50 - gradDiff * 5);
               s3 = (case steepSegment an of
                       None \<Rightarrow> s2
                     | Some ss \<Rightarrow> s2 + min (ss_verticalDrop ss) 500 / 10)
           in js_round (s3 * 10) / 10))"

subsection \<open>The route loops of analyzeGpxTracks and analyzeToppturTours\<close>

text \<open>
  The loop \<^verbatim>\<open>segments.forEach\<close> that keeps the best-scoring analysis; the source writes it
  three times (local tracks, catalog routes forward, catalog routes reversed) with the
  same body.
\<close>

record best =
  bestAnalysis :: "analysis option"
  bestScore :: real

definition bestStep :: "point list \<Rightarrow> real option list \<Rightarrow> segment \<Rightarrow> best \<Rightarrow> error + best" where
  "bestStep points smoothEle seg b =
     bindE (analyzeDescentSegment points smoothEle (seg_peakI seg) (seg_troughI seg)) (\<lambda>a.
       case a of
         None \<Rightarrow> Inr b
       | Some an \<Rightarrow>
           (let sc = descentScore (Some an)
            in if sc > bestScore b then Inr \<lparr>bestAnalysis = Some an, bestScore = sc\<rparr>
               else Inr b))"

definition bestDescent :: "point list \<Rightarrow> real option list \<Rightarrow> segment list \<Rightarrow> error + best" where
  "bestDescent points smoothEle segs =
     foldE (bestStep points smoothEle) segs \<lparr>bestAnalysis = None, bestScore = 0\<rparr>"

text \<open>
  A Scored Result. Of the metadata the source copies into it (file name, date, id, place,
  rating) only the name is kept, with the rounded distance from Tromso of a catalog route.
\<close>

datatype source = Gpx | Topptur

record scored =
  r_source :: source
  r_name :: string
  r_distFromTromso :: "real option"
  r_descent :: analysis
  r_score :: real

text \<open>
  The body of \<^verbatim>\<open>gpxFiles.forEach\<close> in \<^verbatim>\<open>analyzeGpxTracks\<close>, from the parsed track on
  (reading and parsing the file is outside the model): \<open>None\<close> is a route that pushes no
  result.
\<close>

definition analyzeGpxTrack :: "point list \<Rightarrow> string \<Rightarrow> error + scored option" where
  "analyzeGpxTrack points nm =
     (if length points < 50 then Inr None
      else
        (let smoothEle = smoothElevation points SMOOTH_WINDOW;
             segs = findDescentSegments smoothEle
         in if length segs = 0 then Inr None
            else
              bindE (bestDescent points smoothEle segs) (\<lambda>b.
                case bestAnalysis b of
                  None \<Rightarrow> Inr None
                | Some an \<Rightarrow>
                    Inr (Some \<lparr>r_source = Gpx, r_name = nm, r_distFromTromso = None,
                               r_descent = an, r_score = bestScore b\<rparr>))))"

text \<open>A catalog coordinate \<^verbatim>\<open>[lon, lat, ele]\<close>, the third entry possibly missing or null.\<close>

record coord =
  c0 :: real
  c1 :: real
  c2 :: "real option"

record tour =
  t_name :: string
  coordinates :: "coord list option"

record bbox =
  minLat :: real
  maxLat :: real
  minLon :: real
  maxLon :: real

definition TROMSO_BBOX :: bbox where
  "TROMSO_BBOX = \<lparr>minLat = 69.3, maxLat = 70.0, minLon = 18.0, maxLon = 20.5\<rparr>"

record place =
  p_lat :: real
  p_lon :: real

definition TROMSO :: place where
  "TROMSO = \<lparr>p_lat = 69.6492, p_lon = 18.9553\<rparr>"

text \<open>\<^verbatim>\<open>c => ({ lat: c[1], lon: c[0], ele: c[2] || 0 })\<close>\<close>

definition toPoint :: "coord \<Rightarrow> point" where
  "toPoint c = \<lparr>lat = c1 c, lon = c0 c, ele = Some (orZero (c2 c))\<rparr>"

text \<open>
  The part of the body of \<^verbatim>\<open>allTours.forEach\<close> from \<^verbatim>\<open>eleArr\<close> to the end of the two
  branches: the best analysis of a catalog route's points.
\<close>

definition tourBest :: "point list \<Rightarrow> error + best" where
  "tourBest points =
     (let eleArr = map ele points;
          segs = findDescentSegments eleArr
      in if length segs = 0 then
           (let revPoints = rev points;
                revEle = map ele revPoints;
                revSegments = findDescentSegments revEle
            in bestDescent revPoints revEle revSegments)
         else bestDescent points eleArr segs)"

text \<open>The body of \<^verbatim>\<open>allTours.forEach\<close>, from the parsed catalog entry on.\<close>

definition analyzeTour :: "tour \<Rightarrow> error + scored option" where
  "analyzeTour t =
     (case coordinates t of
        None \<Rightarrow> Inr None
      | Some cs \<Rightarrow>
          if length cs < 5 then Inr None
          else
            (let lon0 = c0 (cs ! 0); lat0 = c1 (cs ! 0)
             in if lat0 < minLat TROMSO_BBOX \<or> lat0 > maxLat TROMSO_BBOX \<or>
                   lon0 < minLon TROMSO_BBOX \<or> lon0 > maxLon TROMSO_BBOX
                then Inr None
                else
                  (let points = map toPoint cs;
                       distFromTromso =
                         haversineKm (p_lat TROMSO) (p_lon TROMSO)
                           (lat (points ! 0)) (lon (points ! 0))
                   in if distFromTromso > MAX_DRIVE_KM then Inr None
                      else
                        bindE (tourBest points) (\<lambda>b.
                          case bestAnalysis b of
                            None \<Rightarrow> Inr None
                          | Some an \<Rightarrow>
                              Inr (Some \<lparr>r_source = Topptur, r_name = t_name t,
                                         r_distFromTromso = Some (js_round (distFromTromso * 10) / 10),
                                         r_descent = an, r_score = bestScore b\<rparr>)))))"

text \<open>
  The raw elevation array of a catalog route as the claim words it: the third coordinate,
  0 where it is missing, null or zero.
\<close>

definition rawEle :: "coord list \<Rightarrow> real option list" where
  "rawEle cs = map (\<lambda>c. Some (case c2 c of None \<Rightarrow> 0 | Some e \<Rightarrow> e)) cs"

definition producesResult :: "error + scored option \<Rightarrow> bool" where
  "producesResult r = (case r of Inr (Some x) \<Rightarrow> True | _ \<Rightarrow> False)"

subsection \<open>Notions used to state the scan's invariant\<close>

text \<open>The number a sample of the series is read as by \<^verbatim>\<open>||\<close> and by arithmetic.\<close>

definition numAt :: "real option list \<Rightarrow> nat \<Rightarrow> real" where
  "numAt xs i = (if i < length xs then orZero (xs ! i) else 0)"

definition segOK :: "real option list \<Rightarrow> segment \<Rightarrow> bool" where
  "segOK xs s \<longleftrightarrow>
     seg_peakI s < seg_troughI s \<and> seg_troughI s < length xs \<and>
     seg_drop s = orZero (xs ! seg_peakI s) - orZero (xs ! seg_troughI s) \<and>
     MIN_DROP_M \<le> seg_drop s \<and>
     xs ! seg_troughI s \<noteq> None \<and> (seg_peakI s = 0 \<or> xs ! seg_peakI s \<noteq> None)"

definition scanInv :: "real option list \<Rightarrow> nat \<Rightarrow> scan \<Rightarrow> bool" where
  "scanInv xs n st \<longleftrightarrow>
     peakI st \<le> troughI st \<and> (troughI st = 0 \<or> troughI st < n) \<and>
     peakEle st = numAt xs (peakI st) \<and> troughEle st = numAt xs (troughI st) \<and>
     (peakI st = 0 \<or> xs ! peakI st \<noteq> None) \<and> (troughI st = 0 \<or> xs ! troughI st \<noteq> None) \<and>
     (\<forall>s \<in> set (segments st). segOK xs s \<and> seg_troughI s < peakI st) \<and>
     sorted_wrt (\<lambda>a b. seg_troughI a < seg_peakI b) (segments st)"

text \<open>
  The first index at which a sequence of elevations reaches its final elevation, and the
  first index holding the elevation met at index \<open>n\<close>.
\<close>

definition firstReach :: "real list \<Rightarrow> nat" where
  "firstReach ds = length (takeWhile (\<lambda>e. e \<noteq> last ds) ds)"

definition firstOf :: "real list \<Rightarrow> nat \<Rightarrow> nat" where
  "firstOf ds n = length (takeWhile (\<lambda>e. e \<noteq> ds ! n) ds)"

subsection \<open>Notions used to state the properties of the steep-run scan\<close>

text \<open>
  A run of \<open>l\<close> consecutive chunks from index \<open>s\<close>, all with a gradient in the steep band;
  \<open>runWithin\<close> is the same inside the first \<open>n\<close> chunks.
\<close>
definition steepRun :: "chunk list \<Rightarrow> nat \<Rightarrow> nat \<Rightarrow> bool" where
  "steepRun cs s l \<longleftrightarrow> s + l \<le> length cs \<and> (\<forall>k \<in> {0..<l}. inSteepBand (cs ! (s + k)))"

definition runWithin :: "chunk list \<Rightarrow> nat \<Rightarrow> nat \<Rightarrow> nat \<Rightarrow> bool" where
  "runWithin cs n s l \<longleftrightarrow> s + l \<le> n \<and> (\<forall>k \<in> {0..<l}. inSteepBand (cs ! (s + k)))"

definition runInv :: "chunk list \<Rightarrow> nat \<Rightarrow> run \<Rightarrow> bool" where
  "runInv cs n r \<longleftrightarrow>
     curLen r \<le> n \<and>
     (0 < curLen r \<longrightarrow> curStart r = n - curLen r) \<and>
     runWithin cs n (n - curLen r) (curLen r) \<and>
     (curLen r < n \<longrightarrow> \<not> inSteepBand (cs ! (n - curLen r - 1))) \<and>
     curLen r \<le> bestLen r \<and>
     (0 < bestLen r \<longrightarrow> runWithin cs n (bestStart r) (bestLen r)) \<and>
     (\<forall>s l. runWithin cs n s l \<longrightarrow> l \<le> bestLen r) \<and>
     (\<forall>s. 0 < bestLen r \<and> runWithin cs n s (bestLen r) \<longrightarrow> bestStart r \<le> s)"

text \<open>What the chunk-building loop guarantees of every chunk it records.\<close>

definition chunkOK :: "real option list \<Rightarrow> chunk \<Rightarrow> bool" where
  "chunkOK smoothEle c \<longleftrightarrow>
     CHUNK_DIST_M \<le> ch_dist c \<and> ch_startI c < length smoothEle \<and> ch_endI c < length smoothEle \<and>
     ch_grad c = arctan (max 0 (ch_drop c) / ch_dist c) * (180 / pi)"

definition chunkInv :: "real option list \<Rightarrow> chunking \<Rightarrow> bool" where
  "chunkInv smoothEle st \<longleftrightarrow>
     chunkStartI st < length smoothEle \<and> (\<forall>c \<in> set (chunks st). chunkOK smoothEle c)"

subsection \<open>The pipeline run directly, and example routes\<close>

text \<open>
  Segmentation, evaluation and scoring run directly on a point sequence and its raw
  elevations, without the reversed retry.
\<close>

definition directPipeline :: "point list \<Rightarrow> error + best" where
  "directPipeline points =
     bestDescent points (map ele points) (findDescentSegments (map ele points))"

definition foundBest :: "error + best \<Rightarrow> bool" where
  "foundBest r = (case r of Inr b \<Rightarrow> bestAnalysis b \<noteq> None | Inl e \<Rightarrow> False)"

text \<open>
  A catalog route of five coordinates that starts at the reference point of Tromso and
  runs north along the meridian in steps of 0.004 degrees of latitude (about 445 m),
  descending from 1000 m to 100 m; and the same route travelled uphill.
\<close>

definition descentCoords :: "coord list" where
  "descentCoords =
     [\<lparr>c0 = 18.9553, c1 = 69.6492, c2 = Some 1000\<rparr>,
      \<lparr>c0 = 18.9553, c1 = 69.6532, c2 = Some 775\<rparr>,
      \<lparr>c0 = 18.9553, c1 = 69.6572, c2 = Some 550\<rparr>,
      \<lparr>c0 = 18.9553, c1 = 69.6612, c2 = Some 325\<rparr>,
      \<lparr>c0 = 18.9553, c1 = 69.6652, c2 = Some 100\<rparr>]"

definition descentTour :: tour where
  "descentTour = \<lparr>t_name = ''Nordover'', coordinates = Some descentCoords\<rparr>"

definition descentPoints :: "point list" where
  "descentPoints =
     [\<lparr>lat = 69.6492, lon = 18.9553, ele = Some 1000\<rparr>,
      \<lparr>lat = 69.6532, lon = 18.9553, ele = Some 775\<rparr>,
      \<lparr>lat = 69.6572, lon = 18.9553, ele = Some 550\<rparr>,
      \<lparr>lat = 69.6612, lon = 18.9553, ele = Some 325\<rparr>,
      \<lparr>lat = 69.6652, lon = 18.9553, ele = Some 100\<rparr>]"

definition climbPoints :: "point list" where
  "climbPoints = rev descentPoints"

text \<open>
  A chunk list with three runs of steep chunks: the first of two chunks dropping 90 m in
  all, the second and the third of three chunks dropping 75 m in all.
\<close>

definition exampleChunks :: "chunk list" where
  "exampleChunks =
     [\<lparr>ch_startI = 0, ch_endI = 1, ch_dist = 70, ch_drop = 45, ch_grad = 32.7\<rparr>,
      \<lparr>ch_startI = 1, ch_endI = 2, ch_dist = 70, ch_drop = 45, ch_grad = 32.7\<rparr>,
      \<lparr>ch_startI = 2, ch_endI = 3, ch_dist = 60, ch_drop = 9, ch_grad = 8.5\<rparr>,
      \<lparr>ch_startI = 3, ch_endI = 4, ch_dist = 50, ch_drop = 25, ch_grad = 26.6\<rparr>,
      \<lparr>ch_startI = 4, ch_endI = 5, ch_dist = 50, ch_drop = 25, ch_grad = 26.6\<rparr>,
      \<lparr>ch_startI = 5, ch_endI = 6, ch_dist = 50, ch_drop = 25, ch_grad = 26.6\<rparr>,
      \<lparr>ch_startI = 6, ch_endI = 7, ch_dist = 60, ch_drop = 9, ch_grad = 8.5\<rparr>,
      \<lparr>ch_startI = 7, ch_endI = 8, ch_dist = 50, ch_drop = 25, ch_grad = 26.6\<rparr>,
      \<lparr>ch_startI = 8, ch_endI = 9, ch_dist = 50, ch_drop = 25, ch_grad = 26.6\<rparr>,
      \<lparr>ch_startI = 9, ch_endI = 10, ch_dist = 50, ch_drop = 25, ch_grad = 26.6\<rparr>]"

text \<open>An analysis with a steep sub-run, to evaluate the scorer on.\<close>

definition exampleAnalysis :: analysis where
  "exampleAnalysis =
     \<lparr>verticalDrop = 600, horizDistM = 1000, avgGradientDeg = 24,
      an_peakEle = 900, an_troughEle = 300,
      steepSegment = Some \<lparr>ss_verticalDrop = 120, ss_horizDistM = 200,
        ss_avgGradientDeg = 31, ss_startEle = 800, ss_endEle = 680\<rparr>\<rparr>"

section \<open>Properties\<close>

subsection \<open>Reading the elevation array\<close>

lemma jsSub_in_range:
  "i < length xs \<Longrightarrow> j < length xs \<Longrightarrow>
     jsSub (jsIndex xs i) (jsIndex xs j) = Inr (orZero (xs ! i) - orZero (xs ! j))"
  by (simp add: jsSub_def jsIndex_def toNumber_def bindE_def orZero_def split: option.splits)

lemma jsRound_in_range:
  "i < length xs \<Longrightarrow> jsRound (jsIndex xs i) = Inr (js_round (orZero (xs ! i)))"
  by (simp add: jsRound_def jsIndex_def toNumber_def bindE_def orZero_def split: option.splits)

subsection \<open>The elevation smoother\<close>

lemma fold_windowAcc:
  "fold (windowAcc points) js (t, c) =
     (t + sum_list (List.map_filter (\<lambda>j. ele (points ! j)) js),
      c + length (List.map_filter (\<lambda>j. ele (points ! j)) js))"
  by (induction js arbitrary: t c) (auto split: option.splits)

lemma smoothAt_Some:
  assumes "ele (points ! i) = Some e"
  shows "smoothAt points W i = spec_windowMean points W i"
  using assms
  by (simp add: smoothAt_def spec_windowMean_def windowEles_def fold_windowAcc Let_def)

lemma windowEles_own:
  assumes "i < length points" and "ele (points ! i) = Some e"
  shows "e \<in> set (windowEles points W i)"
proof -
  have "i \<in> set [nat (max 0 (int i - int W))..<Suc (min (length points - 1) (i + W))]"
    using assms(1) by auto
  then show ?thesis
    using assms(2) unfolding windowEles_def List.map_filter_def by force
qed

text \<open>
  C1 (as amended). The smoothed series has the length of the point sequence. At an index
  whose own elevation is non-null the output is the arithmetic mean of the non-null
  elevations of the window \<open>max 0 (i - W) .. min (n - 1) (i + W)\<close>; the output is null
  exactly when the sample's own elevation is null, whatever its neighbours hold.
\<close>

theorem smoothElevation_mean_unless_own_null:
  assumes "i < length points"
  shows "length (smoothElevation points W) = length points \<and>
         smoothElevation points W ! i =
           (case ele (points ! i) of None \<Rightarrow> None | Some e \<Rightarrow> spec_windowMean points W i) \<and>
         (smoothElevation points W ! i = None \<longleftrightarrow> ele (points ! i) = None)"
proof (cases "ele (points ! i)")
  case None
  then show ?thesis using assms by (simp add: smoothElevation_def smoothAt_def)
next
  case (Some e)
  have "windowEles points W i \<noteq> []"
    using windowEles_own [OF assms Some, of W] by auto
  then have "spec_windowMean points W i \<noteq> None"
    by (simp add: spec_windowMean_def)
  then show ?thesis
    using assms Some by (simp add: smoothElevation_def smoothAt_Some)
qed

text \<open>
  The theorem at a three-sample track with a gap in the middle: index 0 averages the two
  elevations of its window.
\<close>

theorem smoothElevation_mean_unless_own_null_witness:
  "0 < length [\<lparr>lat = 0, lon = 0, ele = Some 100\<rparr>, \<lparr>lat = 0, lon = 0, ele = None\<rparr>,
      \<lparr>lat = 0, lon = 0, ele = Some 200\<rparr>] \<and>
   smoothElevation [\<lparr>lat = 0, lon = 0, ele = Some 100\<rparr>, \<lparr>lat = 0, lon = 0, ele = None\<rparr>,
      \<lparr>lat = 0, lon = 0, ele = Some 200\<rparr>] SMOOTH_WINDOW ! 0 = Some 150"
proof -
  let ?ps = "[\<lparr>lat = 0, lon = 0, ele = Some 100\<rparr>, \<lparr>lat = 0, lon = 0, ele = None\<rparr>,
      \<lparr>lat = 0, lon = 0, ele = Some 200\<rparr>]"
  have "0 < length ?ps" by simp
  from smoothElevation_mean_unless_own_null [OF this, of SMOOTH_WINDOW]
  show ?thesis
    by (simp add: spec_windowMean_def windowEles_def SMOOTH_WINDOW_def)
qed

text \<open>
  C1 as the specification states it fails: a sample without elevation stays null although
  its neighbour inside the window has one, where the window mean would be 100.
\<close>

theorem smoothElevation_null_neighbour_counterexample:
  "smoothElevation [\<lparr>lat = 0, lon = 0, ele = None\<rparr>, \<lparr>lat = 0, lon = 0, ele = Some 100\<rparr>]
      SMOOTH_WINDOW ! 0 = None \<and>
   spec_windowMean [\<lparr>lat = 0, lon = 0, ele = None\<rparr>, \<lparr>lat = 0, lon = 0, ele = Some 100\<rparr>]
      SMOOTH_WINDOW 0 = Some 100"
  by (simp add: smoothElevation_def smoothAt_def spec_windowMean_def windowEles_def
      SMOOTH_WINDOW_def)

subsection \<open>The descent segment finder\<close>


lemma scanUpto_0: "scanUpto xs 0 = scanInit xs"
  by (simp add: scanUpto_def)

lemma scanUpto_1: "scanUpto xs (Suc 0) = scanInit xs"
  by (simp add: scanUpto_def)

lemma scanUpto_Suc: "Suc 0 \<le> n \<Longrightarrow> scanUpto xs (Suc n) = scanStep xs n (scanUpto xs n)"
  by (simp add: scanUpto_def)

lemma scanStep_append: "i < length xs \<Longrightarrow> scanStep (xs @ ys) i st = scanStep xs i st"
  by (simp add: scanStep_def nth_append)

lemma scanInit_append: "xs \<noteq> [] \<Longrightarrow> scanInit (xs @ ys) = scanInit xs"
  by (cases xs) (simp_all add: scanInit_def firstOrZero_def)

lemma scanUpto_append: "xs \<noteq> [] \<Longrightarrow> n \<le> length xs \<Longrightarrow> scanUpto (xs @ ys) n = scanUpto xs n"
proof (induction n)
  case 0
  then show ?case by (simp add: scanUpto_0 scanInit_append)
next
  case (Suc n)
  show ?case
  proof (cases "n = 0")
    case True
    then show ?thesis using Suc.prems by (simp add: scanUpto_1 scanInit_append)
  next
    case False
    then show ?thesis using Suc by (simp add: scanUpto_Suc scanStep_append)
  qed
qed

lemma scanInv_init: "scanInv xs n (scanInit xs)"
  by (cases xs) (simp_all add: scanInv_def scanInit_def numAt_def firstOrZero_def)

lemma pushIfSignificant_inv:
  assumes "scanInv xs n st" and "n \<le> length xs"
  shows "(\<forall>s \<in> set (pushIfSignificant st). segOK xs s \<and> seg_troughI s \<le> troughI st) \<and>
         sorted_wrt (\<lambda>a b. seg_troughI a < seg_peakI b) (pushIfSignificant st)"
proof (cases "MIN_DROP_M \<le> peakEle st - troughEle st")
  case False
  then show ?thesis using assms(1) by (fastforce simp: pushIfSignificant_def scanInv_def)
next
  case True
  then have ne: "peakEle st \<noteq> troughEle st" by (simp add: MIN_DROP_M_def)
  then have "peakI st \<noteq> troughI st" using assms(1) by (auto simp: scanInv_def)
  then have lt: "peakI st < troughI st" using assms(1) by (simp add: scanInv_def)
  then have rng: "troughI st < length xs" using assms by (auto simp: scanInv_def)
  have new: "segOK xs \<lparr>seg_peakI = peakI st, seg_troughI = troughI st,
               seg_drop = peakEle st - troughEle st\<rparr>"
    using True lt rng assms(1) by (auto simp: segOK_def scanInv_def numAt_def)
  show ?thesis
    using True new assms(1)
    by (fastforce simp: pushIfSignificant_def scanInv_def sorted_wrt_append)
qed

lemma scanStep_inv:
  assumes "scanInv xs n st" and "Suc 0 \<le> n" and "n < length xs"
  shows "scanInv xs (Suc n) (scanStep xs n st)"
proof (cases "xs ! n")
  case None
  then show ?thesis using assms(1) by (auto simp: scanStep_def scanInv_def)
next
  case (Some e)
  have num: "numAt xs n = e" using Some assms(3) by (simp add: numAt_def orZero_def)
  have push: "(\<forall>s \<in> set (pushIfSignificant st). segOK xs s \<and> seg_troughI s \<le> troughI st) \<and>
         sorted_wrt (\<lambda>a b. seg_troughI a < seg_peakI b) (pushIfSignificant st)"
    using pushIfSignificant_inv [OF assms(1)] assms(3) by simp
  have tr: "troughI st < n" using assms(1,2) by (auto simp: scanInv_def)
  consider (a) "e > peakEle st" | (b) "\<not> e > peakEle st" "e < troughEle st"
    | (c) "\<not> e > peakEle st" "\<not> e < troughEle st" "e > troughEle st + MIN_CLIMB_TO_RESET"
    | (d) "\<not> e > peakEle st" "\<not> e < troughEle st" "\<not> e > troughEle st + MIN_CLIMB_TO_RESET"
    by blast
  then show ?thesis
  proof cases
    case a
    then show ?thesis using assms(1) Some num tr
      by (fastforce simp: scanStep_def scanInv_def)
  next
    case b
    then show ?thesis using assms(1) Some num tr
      by (fastforce simp: scanStep_def scanInv_def)
  next
    case c
    then show ?thesis using Some num tr push
      by (fastforce simp: scanStep_def scanInv_def)
  next
    case d
    then show ?thesis using assms(1) Some
      by (fastforce simp: scanStep_def scanInv_def)
  qed
qed

lemma scanUpto_inv: "n \<le> length xs \<Longrightarrow> scanInv xs n (scanUpto xs n)"
proof (induction n)
  case 0
  then show ?case by (simp add: scanUpto_0 scanInv_init)
next
  case (Suc n)
  show ?case
  proof (cases "n = 0")
    case True
    then show ?thesis by (simp add: scanUpto_1 scanInv_init)
  next
    case False
    then show ?thesis using Suc by (simp add: scanUpto_Suc scanStep_inv)
  qed
qed

text \<open>
  C4 (as amended). Every segment returned has a trough sample with an elevation and a
  recorded drop of at least \<open>MIN_DROP_M\<close>, hence non-negative. When its peak sample has
  an elevation the drop is that elevation minus the elevation at the trough index; the
  peak sample is without elevation only for a segment whose peak index is 0 on a series
  whose sample 0 is null, and its drop is then 0 minus the elevation at the trough index.
  The peak index lies strictly before the trough index, inside the series, and the
  segments are ordered and pairwise disjoint: each one's trough index lies strictly before
  the peak index of every later one.
\<close>

theorem findDescentSegments_invariants:
  "(\<forall>s \<in> set (findDescentSegments xs).
      (case xs ! seg_troughI s of
         None \<Rightarrow> False
       | Some te \<Rightarrow>
           (case xs ! seg_peakI s of
              Some pe \<Rightarrow> seg_drop s = pe - te
            | None \<Rightarrow> seg_peakI s = 0 \<and> seg_drop s = 0 - te)) \<and>
      MIN_DROP_M \<le> seg_drop s \<and> 0 \<le> seg_drop s \<and>
      seg_peakI s < seg_troughI s \<and> seg_troughI s < length xs) \<and>
   sorted_wrt (\<lambda>a b. seg_troughI a < seg_peakI b) (findDescentSegments xs)"
proof -
  have inv: "(\<forall>s \<in> set (findDescentSegments xs). segOK xs s) \<and>
      sorted_wrt (\<lambda>a b. seg_troughI a < seg_peakI b) (findDescentSegments xs)"
    using pushIfSignificant_inv [OF scanUpto_inv [of "length xs" xs]]
    by (simp add: findDescentSegments_def)
  have "(case xs ! seg_troughI s of
         None \<Rightarrow> False
       | Some te \<Rightarrow>
           (case xs ! seg_peakI s of
              Some pe \<Rightarrow> seg_drop s = pe - te
            | None \<Rightarrow> seg_peakI s = 0 \<and> seg_drop s = 0 - te)) \<and>
      MIN_DROP_M \<le> seg_drop s \<and> 0 \<le> seg_drop s \<and>
      seg_peakI s < seg_troughI s \<and> seg_troughI s < length xs"
    if ok: "segOK xs s" for s
    using ok by (auto simp: segOK_def orZero_def MIN_DROP_M_def split: option.splits)
  then show ?thesis using inv by blast
qed

text \<open>
  The theorem at a series with a gap and a re-ascent of more than \<open>MIN_CLIMB_TO_RESET\<close>:
  two segments, 500 down to 250 and 400 down to 100.
\<close>

theorem findDescentSegments_invariants_witness:
  "findDescentSegments [Some 500, None, Some 250, Some 400, Some 100] =
     [\<lparr>seg_peakI = 0, seg_troughI = 2, seg_drop = 250\<rparr>,
      \<lparr>seg_peakI = 3, seg_troughI = 4, seg_drop = 300\<rparr>] \<and>
   sorted_wrt (\<lambda>a b. seg_troughI a < seg_peakI b)
     (findDescentSegments [Some 500, None, Some 250, Some 400, Some 100])"
proof -
  have "findDescentSegments [Some 500, None, Some 250, Some 400, Some 100] =
     [\<lparr>seg_peakI = 0, seg_troughI = 2, seg_drop = 250\<rparr>,
      \<lparr>seg_peakI = 3, seg_troughI = 4, seg_drop = 300\<rparr>]"
    by (simp add: findDescentSegments_def scanUpto_def scanStep_def scanInit_def
        firstOrZero_def orZero_def pushIfSignificant_def MIN_DROP_M_def MIN_CLIMB_TO_RESET_def)
  then show ?thesis
    using findDescentSegments_invariants [of "[Some 500, None, Some 250, Some 400, Some 100]"]
    by simp
qed

text \<open>
  C4 as the specification states it fails: on the series null, -250 the segment returned
  has its peak at index 0, a sample without elevation, so its drop of 250 is not a
  difference of two smoothed elevations.
\<close>

theorem findDescentSegments_null_peak_counterexample:
  "findDescentSegments [None, Some (- 250)] =
     [\<lparr>seg_peakI = 0, seg_troughI = 1, seg_drop = 250\<rparr>] \<and>
   [None, Some (- 250 :: real)] ! 0 = None"
  by (simp add: findDescentSegments_def scanUpto_def scanStep_def scanInit_def
      firstOrZero_def orZero_def pushIfSignificant_def MIN_DROP_M_def MIN_CLIMB_TO_RESET_def)


lemma orZero_Some: "orZero (Some v) = v"
  by (simp add: orZero_def)

lemma scanInit_Some: "scanInit (Some e # xs) =
    \<lparr>peakI = 0, peakEle = e, troughI = 0, troughEle = e, segments = []\<rparr>"
  by (simp add: scanInit_def firstOrZero_def orZero_Some)

lemma scanStep_null: "xs ! n = None \<Longrightarrow> scanStep xs n st = st"
  by (simp add: scanStep_def)

lemma findDescentSegments_trailing_null:
  "findDescentSegments (ys @ [None]) = findDescentSegments ys"
proof (cases "ys = []")
  case True
  then show ?thesis
    by (simp add: findDescentSegments_def scanUpto_1 scanUpto_0 scanInit_def firstOrZero_def
        orZero_def)
next
  case False
  then have "Suc 0 \<le> length ys" by (cases ys) simp_all
  then have "scanUpto (ys @ [None]) (Suc (length ys)) = scanUpto (ys @ [None]) (length ys)"
    by (simp add: scanUpto_Suc scanStep_null)
  also have "\<dots> = scanUpto ys (length ys)"
    using False by (simp add: scanUpto_append)
  finally show ?thesis by (simp add: findDescentSegments_def)
qed

text \<open>
  C3 (as amended). The scan starts with peak and trough both at index 0 and at the
  elevation of sample 0, which is the first non-null sample when sample 0 has an
  elevation; when sample 0 is null the start is index 0 with elevation 0. A null
  elevation met during the scan leaves the whole state as it is (no update, no segment
  closed), at one step, along the scan, and at the end of the series.
\<close>

theorem scan_initial_state_and_nulls:
  "scanInit (Some e # xs) = \<lparr>peakI = 0, peakEle = e, troughI = 0, troughEle = e, segments = []\<rparr> \<and>
   firstNonNullFrom 0 (Some e # xs) = Some (0, e) \<and>
   scanInit (None # xs) = \<lparr>peakI = 0, peakEle = 0, troughI = 0, troughEle = 0, segments = []\<rparr> \<and>
   (n < length ys \<and> ys ! n = None \<longrightarrow> scanStep ys n st = st) \<and>
   (Suc 0 \<le> n \<and> n < length ys \<and> ys ! n = None \<longrightarrow> scanUpto ys (Suc n) = scanUpto ys n) \<and>
   findDescentSegments (ys @ [None]) = findDescentSegments ys"
  by (simp add: scanInit_Some scanStep_null scanUpto_Suc findDescentSegments_trailing_null)
    (simp add: scanInit_def firstOrZero_def orZero_def)

text \<open>
  The theorem at the series 500, null, 250: the null at index 1 changes nothing and the
  descent across it is found as one segment.
\<close>

theorem scan_initial_state_and_nulls_witness:
  "scanInit [Some 500, None, Some 250] =
     \<lparr>peakI = 0, peakEle = 500, troughI = 0, troughEle = 500, segments = []\<rparr> \<and>
   scanStep [Some 500, None, Some 250] 1 (scanInit [Some 500, None, Some 250]) =
     scanInit [Some 500, None, Some 250] \<and>
   scanUpto [Some 500, None, Some 250] (Suc 1) = scanUpto [Some 500, None, Some 250] 1 \<and>
   findDescentSegments [Some 500, None, Some 250] =
     [\<lparr>seg_peakI = 0, seg_troughI = 2, seg_drop = 250\<rparr>]"
proof -
  have "findDescentSegments [Some 500, None, Some 250] =
     [\<lparr>seg_peakI = 0, seg_troughI = 2, seg_drop = 250\<rparr>]"
    by (simp add: findDescentSegments_def scanUpto_def scanStep_def scanInit_def
        firstOrZero_def orZero_def pushIfSignificant_def MIN_DROP_M_def MIN_CLIMB_TO_RESET_def)
  then show ?thesis
    using scan_initial_state_and_nulls [of 500 "[None, Some 250]" 1 "[Some 500, None, Some 250]"
        "scanInit [Some 500, None, Some 250]"]
    by (simp add: scanStep_def)
qed

text \<open>
  C3 as the specification states it fails: on the series null, -250 the first non-null
  sample is index 1 with elevation -250, but the scan starts at index 0 with elevation 0,
  and so reports a descent of 250 m from the null sample.
\<close>

theorem scanInit_null_first_counterexample:
  "scanInit [None, Some (- 250)] =
     \<lparr>peakI = 0, peakEle = 0, troughI = 0, troughEle = 0, segments = []\<rparr> \<and>
   firstNonNullFrom 0 [None, Some (- 250)] = Some (1, - 250) \<and>
   findDescentSegments [None, Some (- 250)] =
     [\<lparr>seg_peakI = 0, seg_troughI = 1, seg_drop = 250\<rparr>]"
  by (simp add: findDescentSegments_def scanUpto_def scanStep_def scanInit_def
      firstOrZero_def orZero_def pushIfSignificant_def MIN_DROP_M_def MIN_CLIMB_TO_RESET_def)

lemma length_takeWhile_first:
  assumes "i < length xs" and "\<not> P (xs ! i)" and "\<And>j. j < i \<Longrightarrow> P (xs ! j)"
  shows "length (takeWhile P xs) = i"
proof (rule antisym)
  show "i \<le> length (takeWhile P xs)"
    using assms(1,3) by (intro length_takeWhile_less_P_nth) simp_all
  show "length (takeWhile P xs) \<le> i"
  proof (rule ccontr)
    assume "\<not> length (takeWhile P xs) \<le> i"
    then have lt: "i < length (takeWhile P xs)" by simp
    then have "takeWhile P xs ! i \<in> set (takeWhile P xs)" by simp
    then have "P (takeWhile P xs ! i)" by (rule set_takeWhileD [THEN conjunct2])
    then show False using assms(2) takeWhile_nth [OF lt] by simp
  qed
qed

lemma firstOf_le: "n < length ds \<Longrightarrow> firstOf ds n \<le> n"
proof -
  assume n: "n < length ds"
  show ?thesis
  proof (rule ccontr)
    assume "\<not> firstOf ds n \<le> n"
    then have lt: "n < length (takeWhile (\<lambda>e. e \<noteq> ds ! n) ds)" by (simp add: firstOf_def)
    then have "takeWhile (\<lambda>e. e \<noteq> ds ! n) ds ! n \<in> set (takeWhile (\<lambda>e. e \<noteq> ds ! n) ds)"
      by simp
    then have "takeWhile (\<lambda>e. e \<noteq> ds ! n) ds ! n \<noteq> ds ! n"
      by (rule set_takeWhileD [THEN conjunct2])
    then show False using takeWhile_nth [OF lt] by simp
  qed
qed

lemma firstOf_strict:
  assumes "sorted_wrt (\<ge>) ds" and "Suc n < length ds" and "ds ! Suc n < ds ! n"
  shows "firstOf ds (Suc n) = Suc n"
  unfolding firstOf_def
proof (rule length_takeWhile_first)
  show "Suc n < length ds" by (rule assms(2))
  show "\<not> ds ! Suc n \<noteq> ds ! Suc n" by simp
  show "ds ! j \<noteq> ds ! Suc n" if "j < Suc n" for j
  proof -
    have "ds ! n \<le> ds ! j"
    proof (cases "j = n")
      case True
      then show ?thesis by simp
    next
      case False
      then have "j < n" using that by simp
      from sorted_wrt_nth_less [OF assms(1) this] assms(2) show ?thesis by simp
    qed
    then show ?thesis using assms(3) by simp
  qed
qed

lemma firstOf_same: "ds ! Suc n = ds ! n \<Longrightarrow> firstOf ds (Suc n) = firstOf ds n"
  by (simp add: firstOf_def)

lemma scanUpto_weakly_decreasing:
  assumes "sorted_wrt (\<ge>) ds" and "Suc 0 \<le> n" and "n \<le> length ds"
  shows "scanUpto (map Some ds) n =
           \<lparr>peakI = 0, peakEle = ds ! 0, troughI = firstOf ds (n - 1),
            troughEle = ds ! (n - 1), segments = []\<rparr>"
  using assms(2,3)
proof (induction n)
  case 0
  then show ?case by simp
next
  case (Suc n)
  show ?case
  proof (cases "n = 0")
    case True
    have "0 < length ds" using Suc.prems by (cases ds) simp_all
    from firstOf_le [OF this] have "firstOf ds 0 = 0" by simp
    then show ?thesis using True Suc.prems
      by (cases ds) (simp_all add: scanUpto_1 scanInit_Some)
  next
    case False
    then obtain m where m: "n = Suc m" by (cases n) simp_all
    have le: "ds ! Suc m \<le> ds ! m"
      using sorted_wrt_nth_less [OF assms(1), of m "Suc m"] Suc.prems m by simp
    have le0: "ds ! Suc m \<le> ds ! 0"
      using sorted_wrt_nth_less [OF assms(1), of 0 "Suc m"] Suc.prems m by simp
    have ih: "scanUpto (map Some ds) n =
           \<lparr>peakI = 0, peakEle = ds ! 0, troughI = firstOf ds m,
            troughEle = ds ! m, segments = []\<rparr>"
      using Suc m by simp
    show ?thesis
    proof (cases "ds ! Suc m < ds ! m")
      case True
      have "firstOf ds (Suc m) = Suc m"
        using firstOf_strict [OF assms(1) _ True] Suc.prems m by simp
      then show ?thesis
        using True le0 Suc.prems m ih by (simp add: scanUpto_Suc scanStep_def)
    next
      case False
      then have eq: "ds ! Suc m = ds ! m" using le by simp
      then show ?thesis
        using le0 Suc.prems m ih firstOf_same [OF eq]
        by (simp add: scanUpto_Suc scanStep_def MIN_CLIMB_TO_RESET_def)
    qed
  qed
qed

lemma firstReach_firstOf: "ds \<noteq> [] \<Longrightarrow> firstReach ds = firstOf ds (length ds - 1)"
  by (simp add: firstReach_def firstOf_def last_conv_nth)

lemma findDescentSegments_weakly_decreasing:
  assumes "sorted_wrt (\<ge>) ds" and "2 \<le> length ds" and "MIN_DROP_M \<le> ds ! 0 - last ds"
  shows "findDescentSegments (map Some ds) =
        [\<lparr>seg_peakI = 0, seg_troughI = firstReach ds, seg_drop = ds ! 0 - last ds\<rparr>]"
proof -
  have ne: "ds \<noteq> []" using assms(2) by auto
  then have l: "last ds = ds ! (length ds - 1)" by (rule last_conv_nth)
  show ?thesis
    using assms(2,3) scanUpto_weakly_decreasing [OF assms(1), of "length ds"] l
    by (simp add: findDescentSegments_def pushIfSignificant_def firstReach_firstOf [OF ne])
qed

lemma firstReach_last_step:
  assumes "sorted_wrt (\<ge>) ds" and "2 \<le> length ds" and "last ds < ds ! (length ds - 2)"
  shows "firstReach ds = length ds - 1"
proof -
  obtain m where m: "length ds = Suc (Suc m)" using assms(2)
    by (metis Suc_le_D numeral_2_eq_2 Suc_le_mono)
  have ne: "ds \<noteq> []" using assms(2) by auto
  have "ds ! Suc m < ds ! m" using assms(3) m by (simp add: last_conv_nth [OF ne])
  from firstOf_strict [OF assms(1) _ this] m show ?thesis
    by (simp add: firstReach_firstOf [OF ne])
qed


lemma firstReach_reaches:
  assumes "ds \<noteq> []"
  shows "firstReach ds \<le> length ds - 1 \<and> ds ! firstReach ds = last ds"
proof -
  have n: "length ds - 1 < length ds" using assms by simp
  from firstOf_le [OF n] have le: "firstReach ds \<le> length ds - 1"
    by (simp add: firstReach_firstOf [OF assms])
  then have "length (takeWhile (\<lambda>e. e \<noteq> last ds) ds) < length ds"
    using n by (simp add: firstReach_def)
  from nth_length_takeWhile [OF this] le show ?thesis by (simp add: firstReach_def)
qed

lemma strictly_weakly: "sorted_wrt (>) (ss :: real list) \<Longrightarrow> sorted_wrt (\<ge>) ss"
  by (rule sorted_wrt_mono_rel [of ss "(>)"]) simp_all

lemma firstReach_strict:
  assumes "sorted_wrt (>) ss" and "2 \<le> length ss"
  shows "firstReach ss = length ss - 1"
proof -
  have "last ss = ss ! (length ss - 1)" using assms(2) by (intro last_conv_nth) auto
  moreover have "ss ! (length ss - 1) < ss ! (length ss - 2)"
    using sorted_wrt_nth_less [OF assms(1), of "length ss - 2" "length ss - 1"] assms(2)
    by simp
  ultimately have "last ss < ss ! (length ss - 2)" by simp
  from firstReach_last_step [OF strictly_weakly [OF assms(1)] assms(2) this] show ?thesis .
qed

lemma scanUpto_increasing:
  assumes "sorted us" and "Suc 0 \<le> n" and "n \<le> length us"
  shows "peakEle (scanUpto (map Some us) n) = us ! (n - 1) \<and>
         troughEle (scanUpto (map Some us) n) = us ! (n - 1) \<and>
         segments (scanUpto (map Some us) n) = []"
  using assms(2,3)
proof (induction n)
  case 0
  then show ?case by simp
next
  case (Suc n)
  show ?case
  proof (cases "n = 0")
    case True
    then show ?thesis using Suc.prems
      by (cases us) (simp_all add: scanUpto_1 scanInit_Some)
  next
    case False
    have "us ! (n - 1) \<le> us ! n"
      using sorted_nth_mono [OF assms(1), of "n - 1" n] Suc.prems by simp
    then show ?thesis
      using False Suc by (auto simp: scanUpto_Suc scanStep_def MIN_CLIMB_TO_RESET_def)
  qed
qed

text \<open>
  C5 (as amended). On a weakly decreasing sequence of at least two elevations whose total
  drop is at least \<open>MIN_DROP_M\<close> the finder returns exactly one segment, with peak index 0
  and drop \<open>elevation[0] - elevation[last]\<close>; its trough index is the first index at
  which the final elevation is reached, which is the last index whenever the last step
  descends, and so on every strictly decreasing sequence. On a weakly increasing sequence
  the finder returns no segment.
\<close>

theorem findDescentSegments_monotone:
  "(sorted_wrt (\<ge>) ds \<and> 2 \<le> length ds \<and> MIN_DROP_M \<le> ds ! 0 - last ds \<longrightarrow>
      findDescentSegments (map Some ds) =
        [\<lparr>seg_peakI = 0, seg_troughI = firstReach ds, seg_drop = ds ! 0 - last ds\<rparr>] \<and>
      firstReach ds \<le> length ds - 1 \<and> ds ! firstReach ds = last ds \<and>
      (last ds < ds ! (length ds - 2) \<longrightarrow> firstReach ds = length ds - 1)) \<and>
   (sorted_wrt (>) ss \<and> 2 \<le> length ss \<and> MIN_DROP_M \<le> ss ! 0 - last ss \<longrightarrow>
      findDescentSegments (map Some ss) =
        [\<lparr>seg_peakI = 0, seg_troughI = length ss - 1, seg_drop = ss ! 0 - last ss\<rparr>]) \<and>
   (sorted us \<longrightarrow> findDescentSegments (map Some us) = [])"
proof (intro conjI impI)
  assume a: "sorted_wrt (\<ge>) ds \<and> 2 \<le> length ds \<and> MIN_DROP_M \<le> ds ! 0 - last ds"
  then have ne: "ds \<noteq> []" by auto
  from a show "findDescentSegments (map Some ds) =
        [\<lparr>seg_peakI = 0, seg_troughI = firstReach ds, seg_drop = ds ! 0 - last ds\<rparr>]"
    by (intro findDescentSegments_weakly_decreasing) simp_all
  from firstReach_reaches [OF ne] show "firstReach ds \<le> length ds - 1"
    and "ds ! firstReach ds = last ds" by simp_all
  show "firstReach ds = length ds - 1" if "last ds < ds ! (length ds - 2)"
    using a that by (intro firstReach_last_step) simp_all
next
  assume a: "sorted_wrt (>) ss \<and> 2 \<le> length ss \<and> MIN_DROP_M \<le> ss ! 0 - last ss"
  then have w: "sorted_wrt (\<ge>) ss" by (intro strictly_weakly) simp
  have "findDescentSegments (map Some ss) =
        [\<lparr>seg_peakI = 0, seg_troughI = firstReach ss, seg_drop = ss ! 0 - last ss\<rparr>]"
    using a w by (intro findDescentSegments_weakly_decreasing) simp_all
  moreover have "firstReach ss = length ss - 1" using a by (intro firstReach_strict) simp_all
  ultimately show "findDescentSegments (map Some ss) =
        [\<lparr>seg_peakI = 0, seg_troughI = length ss - 1, seg_drop = ss ! 0 - last ss\<rparr>]"
    by simp
next
  assume s: "sorted us"
  show "findDescentSegments (map Some us) = []"
  proof (cases "us = []")
    case True
    then show ?thesis
      by (simp add: findDescentSegments_def scanUpto_0 scanInit_def pushIfSignificant_def
          firstOrZero_def MIN_DROP_M_def)
  next
    case False
    then have "Suc 0 \<le> length us" by (cases us) simp_all
    from scanUpto_increasing [OF s this] show ?thesis
      by (simp add: findDescentSegments_def pushIfSignificant_def MIN_DROP_M_def)
  qed
qed

text \<open>
  The theorem at 500, 400, 400, 300 (a plateau inside, the trough at the last index), at
  500, 300, 300 (a plateau at the end, the trough at index 1), at the strictly decreasing
  500, 300 and at the increasing 100, 300.
\<close>

theorem findDescentSegments_monotone_witness:
  "sorted_wrt (\<ge>) [500, 400, 400, 300 :: real] \<and> 2 \<le> length [500, 400, 400, 300 :: real] \<and>
   MIN_DROP_M \<le> [500, 400, 400, 300] ! 0 - last [500, 400, 400, 300] \<and>
   findDescentSegments (map Some [500, 400, 400, 300]) =
     [\<lparr>seg_peakI = 0, seg_troughI = 3, seg_drop = 200\<rparr>] \<and>
   sorted_wrt (\<ge>) [500, 300, 300 :: real] \<and>
   findDescentSegments (map Some [500, 300, 300]) =
     [\<lparr>seg_peakI = 0, seg_troughI = 1, seg_drop = 200\<rparr>] \<and>
   sorted_wrt (>) [500, 300 :: real] \<and>
   findDescentSegments (map Some [500, 300]) =
     [\<lparr>seg_peakI = 0, seg_troughI = 1, seg_drop = 200\<rparr>] \<and>
   sorted [100, 300 :: real] \<and> findDescentSegments (map Some [100, 300]) = []"
proof -
  have a: "findDescentSegments (map Some [500, 400, 400, 300]) =
     [\<lparr>seg_peakI = 0, seg_troughI = 3, seg_drop = 200\<rparr>]"
    using findDescentSegments_monotone [of "[500, 400, 400, 300]" "[500, 300]" "[100, 300]"]
    by (simp add: MIN_DROP_M_def firstReach_def)
  have b: "findDescentSegments (map Some [500, 300, 300]) =
     [\<lparr>seg_peakI = 0, seg_troughI = 1, seg_drop = 200\<rparr>]"
    using findDescentSegments_monotone [of "[500, 300, 300]" "[500, 300]" "[100, 300]"]
    by (simp add: MIN_DROP_M_def firstReach_def)
  have c: "findDescentSegments (map Some [500, 300]) =
     [\<lparr>seg_peakI = 0, seg_troughI = 1, seg_drop = 200\<rparr>] \<and>
     findDescentSegments (map Some [100, 300]) = []"
    using findDescentSegments_monotone [of "[500, 300]" "[500, 300]" "[100, 300]"]
    by (simp add: MIN_DROP_M_def)
  show ?thesis using a b c by (simp add: MIN_DROP_M_def)
qed

text \<open>
  C5 as the specification states it fails on a decreasing sequence that ends in a
  plateau: on 500, 300, 300 the trough stays at index 1, the first sample at the final
  elevation, not at the last index 2.
\<close>

theorem findDescentSegments_plateau_counterexample:
  "sorted_wrt (\<ge>) [500, 300, 300 :: real] \<and>
   findDescentSegments (map Some [500, 300, 300]) =
     [\<lparr>seg_peakI = 0, seg_troughI = 1, seg_drop = 200\<rparr>]"
  by (simp add: findDescentSegments_def scanUpto_def scanStep_def scanInit_def
      firstOrZero_def orZero_def pushIfSignificant_def MIN_DROP_M_def MIN_CLIMB_TO_RESET_def)

subsection \<open>The scorer\<close>


lemma js_round_mono: "x \<le> y \<Longrightarrow> js_round x \<le> js_round y"
  unfolding js_round_def by (simp add: floor_mono)

lemma descentScore_drop_mono:
  assumes "v1 \<le> v2"
  shows "descentScore (Some (an\<lparr>verticalDrop := v1\<rparr>)) \<le> descentScore (Some (an\<lparr>verticalDrop := v2\<rparr>))"
proof -
  have "min v1 1200 / 12 \<le> min v2 1200 / 12" using assms by simp
  then show ?thesis
    unfolding descentScore_def
    by (cases "steepSegment an") (auto simp: Let_def divide_right_mono intro!: js_round_mono)
qed

lemma descentScore_gradient_peak:
  "descentScore (Some (an\<lparr>avgGradientDeg := g\<rparr>)) \<le> descentScore (Some (an\<lparr>avgGradientDeg := 30\<rparr>))"
proof -
  have "max 0 (50 - \<bar>g - 30\<bar> * 5) \<le> (50::real)" by simp
  then show ?thesis
    unfolding descentScore_def
    by (cases "steepSegment an") (auto simp: Let_def divide_right_mono intro!: js_round_mono)
qed

text \<open>
  C7. With the gradient and the steep sub-run (present or absent) fixed, the score does not
  decrease when the vertical drop grows; with the drop and the steep sub-run fixed, no
  gradient scores higher than 30 degrees.
\<close>

theorem descentScore_monotone_and_peak:
  "(v1 \<le> v2 \<longrightarrow>
      descentScore (Some (an\<lparr>verticalDrop := v1\<rparr>)) \<le> descentScore (Some (an\<lparr>verticalDrop := v2\<rparr>))) \<and>
   descentScore (Some (an\<lparr>avgGradientDeg := g\<rparr>)) \<le> descentScore (Some (an\<lparr>avgGradientDeg := 30\<rparr>))"
  using descentScore_drop_mono descentScore_gradient_peak by blast

text \<open>The theorem at the example analysis: drops of 600 and 900 m, gradients of 24 and 30.\<close>

theorem descentScore_monotone_and_peak_witness:
  "(600 :: real) \<le> 900 \<and>
   descentScore (Some (exampleAnalysis\<lparr>verticalDrop := 600\<rparr>)) \<le>
     descentScore (Some (exampleAnalysis\<lparr>verticalDrop := 900\<rparr>)) \<and>
   descentScore (Some (exampleAnalysis\<lparr>verticalDrop := 600\<rparr>)) = 82 \<and>
   descentScore (Some (exampleAnalysis\<lparr>verticalDrop := 900\<rparr>)) = 107 \<and>
   descentScore (Some (exampleAnalysis\<lparr>avgGradientDeg := 24\<rparr>)) \<le>
     descentScore (Some (exampleAnalysis\<lparr>avgGradientDeg := 30\<rparr>)) \<and>
   descentScore (Some (exampleAnalysis\<lparr>avgGradientDeg := 30\<rparr>)) = 112"
  using descentScore_monotone_and_peak [of 600 900 exampleAnalysis 24]
  by (simp add: descentScore_def exampleAnalysis_def js_round_def)


subsection \<open>The longest run of steep chunks\<close>

lemma runWithin_iff:
  "runWithin cs n s l \<longleftrightarrow> s + l \<le> n \<and> (\<forall>k<l. inSteepBand (cs ! (s + k)))"
  by (auto simp: runWithin_def)

lemma runInvI:
  assumes "curLen r \<le> n"
    and "0 < curLen r \<Longrightarrow> curStart r = n - curLen r"
    and "runWithin cs n (n - curLen r) (curLen r)"
    and "curLen r < n \<Longrightarrow> \<not> inSteepBand (cs ! (n - curLen r - 1))"
    and "curLen r \<le> bestLen r"
    and "0 < bestLen r \<Longrightarrow> runWithin cs n (bestStart r) (bestLen r)"
    and "\<And>s l. runWithin cs n s l \<Longrightarrow> l \<le> bestLen r"
    and "\<And>s. 0 < bestLen r \<Longrightarrow> runWithin cs n s (bestLen r) \<Longrightarrow> bestStart r \<le> s"
  shows "runInv cs n r"
  unfolding runInv_def using assms by blast

lemma runInvD:
  assumes "runInv cs n r"
  shows "curLen r \<le> n"
    and "0 < curLen r \<Longrightarrow> curStart r = n - curLen r"
    and "runWithin cs n (n - curLen r) (curLen r)"
    and "curLen r < n \<Longrightarrow> \<not> inSteepBand (cs ! (n - curLen r - 1))"
    and "curLen r \<le> bestLen r"
    and "0 < bestLen r \<Longrightarrow> runWithin cs n (bestStart r) (bestLen r)"
    and "\<And>s l. runWithin cs n s l \<Longrightarrow> l \<le> bestLen r"
    and "\<And>s. 0 < bestLen r \<Longrightarrow> runWithin cs n s (bestLen r) \<Longrightarrow> bestStart r \<le> s"
  using assms unfolding runInv_def by blast+

lemma runUpto_0: "runUpto cs 0 = \<lparr>bestStart = 0, bestLen = 0, curStart = 0, curLen = 0\<rparr>"
  by (simp add: runUpto_def)

lemma runUpto_Suc: "runUpto cs (Suc n) = runStep cs n (runUpto cs n)"
  by (simp add: runUpto_def)

lemma runInv_0: "runInv cs 0 (runUpto cs 0)"
  by (rule runInvI) (simp_all add: runUpto_0 runWithin_iff)

lemma runWithin_mono: "runWithin cs n s l \<Longrightarrow> runWithin cs (Suc n) s l"
  by (simp add: runWithin_iff)

lemma runWithin_last:
  assumes "runWithin cs (Suc n) s l" and "\<not> runWithin cs n s l" and "0 < l"
  shows "s + l = Suc n \<and> inSteepBand (cs ! n)"
proof -
  from assms(1,2) have eq: "s + l = Suc n" by (auto simp: runWithin_iff)
  have "l - 1 < l" using assms(3) by simp
  with assms(1) have "inSteepBand (cs ! (s + (l - 1)))" unfolding runWithin_iff by blast
  moreover have "s + (l - 1) = n" using eq assms(3) by simp
  ultimately show ?thesis using eq by simp
qed

lemma runStep_out:
  assumes inv: "runInv cs n r" and out: "\<not> inSteepBand (cs ! n)"
  shows "runInv cs (Suc n) (runStep cs n r)"
proof -
  have step: "runStep cs n r = r\<lparr>curLen := 0\<rparr>" using out by (simp add: runStep_def)
  have old: "runWithin cs n s l" if "runWithin cs (Suc n) s l" and "0 < l" for s l
    using runWithin_last [OF that(1) _ that(2)] out by blast
  show ?thesis
    unfolding step
  proof (rule runInvI)
    show "runWithin cs (Suc n) (Suc n - curLen (r\<lparr>curLen := 0\<rparr>)) (curLen (r\<lparr>curLen := 0\<rparr>))"
      by (simp add: runWithin_iff)
    show "\<not> inSteepBand (cs ! (Suc n - curLen (r\<lparr>curLen := 0\<rparr>) - 1))"
      using out by simp
    show "runWithin cs (Suc n) (bestStart (r\<lparr>curLen := 0\<rparr>)) (bestLen (r\<lparr>curLen := 0\<rparr>))"
      if "0 < bestLen (r\<lparr>curLen := 0\<rparr>)"
      using that runInvD(6) [OF inv] by (simp add: runWithin_mono)
    show "l \<le> bestLen (r\<lparr>curLen := 0\<rparr>)" if "runWithin cs (Suc n) s l" for s l
    proof (cases "0 < l")
      case True
      from runInvD(7) [OF inv old [OF that True]] show ?thesis by simp
    next
      case False
      then show ?thesis by simp
    qed
    show "bestStart (r\<lparr>curLen := 0\<rparr>) \<le> s"
      if "0 < bestLen (r\<lparr>curLen := 0\<rparr>)" and "runWithin cs (Suc n) s (bestLen (r\<lparr>curLen := 0\<rparr>))" for s
    proof -
      from that have "0 < bestLen r" and "runWithin cs (Suc n) s (bestLen r)" by simp_all
      from runInvD(8) [OF inv this(1) old [OF this(2,1)]] show ?thesis by simp
    qed
  qed simp_all
qed


lemma runStep_in:
  assumes inv: "runInv cs n r" and inb: "inSteepBand (cs ! n)"
  shows "runInv cs (Suc n) (runStep cs n r)"
proof -
  define cl where "cl = curLen r + 1"
  define cst where "cst = n - curLen r"
  note c1 = runInvD(1) [OF inv] and c5 = runInvD(5) [OF inv]
  have cst: "(if curLen r = 0 then n else curStart r) = cst"
    using runInvD(2) [OF inv] by (simp add: cst_def)
  have cst': "cst = Suc n - cl" using c1 by (simp add: cst_def cl_def)
  have cur: "runWithin cs (Suc n) cst cl"
  proof -
    have "inSteepBand (cs ! (cst + k))" if "k < cl" for k
    proof (cases "k < curLen r")
      case True
      then show ?thesis using runInvD(3) [OF inv] unfolding runWithin_iff cst_def by blast
    next
      case False
      then have "cst + k = n" using that c1 by (simp add: cl_def cst_def)
      then show ?thesis using inb by simp
    qed
    then show ?thesis using c1 by (simp add: runWithin_iff cl_def cst_def)
  qed
  have stop: "\<not> inSteepBand (cs ! (Suc n - cl - 1))" if "cl < Suc n"
    using runInvD(4) [OF inv] that by (simp add: cl_def)
  have sfx: "l \<le> cl" if w: "runWithin cs (Suc n) s l" and e: "s + l = Suc n" for s l
  proof (rule ccontr)
    assume "\<not> l \<le> cl"
    then have big: "cl < l" by simp
    then have lt: "cl < Suc n" using e by simp
    have "l - cl - 1 < l" using big by simp
    with w have "inSteepBand (cs ! (s + (l - cl - 1)))" unfolding runWithin_iff by blast
    moreover have "s + (l - cl - 1) = Suc n - cl - 1" using big e by simp
    ultimately show False using stop [OF lt] by simp
  qed
  have le_any: "l \<le> max cl (bestLen r)" if w: "runWithin cs (Suc n) s l" for s l
  proof (cases "runWithin cs n s l \<or> l = 0")
    case True
    then show ?thesis using runInvD(7) [OF inv, of s l] by auto
  next
    case False
    then have "s + l = Suc n" using runWithin_last [OF w, of ] by simp
    from sfx [OF w this] show ?thesis by simp
  qed
  show ?thesis
  proof (cases "cl > bestLen r")
    case True
    have step: "runStep cs n r = \<lparr>bestStart = cst, bestLen = cl, curStart = cst, curLen = cl\<rparr>"
      using inb cst True by (simp add: runStep_def cl_def Let_def)
    have first: "cst \<le> s" if w: "runWithin cs (Suc n) s cl" for s
    proof (cases "runWithin cs n s cl")
      case True
      from runInvD(7) [OF inv this] \<open>cl > bestLen r\<close> show ?thesis by simp
    next
      case False
      have "0 < cl" by (simp add: cl_def)
      from runWithin_last [OF w False this] have "s + cl = Suc n" by blast
      then show ?thesis using cst' by linarith
    qed
    show ?thesis
      unfolding step
    proof (rule runInvI)
      show "l \<le> bestLen \<lparr>bestStart = cst, bestLen = cl, curStart = cst, curLen = cl\<rparr>"
        if "runWithin cs (Suc n) s l" for s l
        using le_any [OF that] True by simp
    qed (use cur stop first cst' c1 in \<open>simp_all add: cl_def\<close>)
  next
    case False
    have step: "runStep cs n r = r\<lparr>curStart := cst, curLen := cl\<rparr>"
      using inb cst False by (simp add: runStep_def cl_def Let_def)
    have pos: "0 < bestLen r" using False by (simp add: cl_def)
    have best: "runWithin cs n (bestStart r) (bestLen r)" using runInvD(6) [OF inv pos] .
    have first: "bestStart r \<le> s" if w: "runWithin cs (Suc n) s (bestLen r)" for s
    proof (cases "runWithin cs n s (bestLen r)")
      case True
      from runInvD(8) [OF inv pos this] show ?thesis .
    next
      case False
      from runWithin_last [OF w False pos] best show ?thesis by (simp add: runWithin_iff)
    qed
    show ?thesis
      unfolding step
    proof (rule runInvI)
      show "l \<le> bestLen (r\<lparr>curStart := cst, curLen := cl\<rparr>)"
        if "runWithin cs (Suc n) s l" for s l
        using le_any [OF that] False by simp
      show "runWithin cs (Suc n) (bestStart (r\<lparr>curStart := cst, curLen := cl\<rparr>))
              (bestLen (r\<lparr>curStart := cst, curLen := cl\<rparr>))"
        using best by (simp add: runWithin_mono)
    qed (use cur stop first cst' False c1 in \<open>simp_all add: cl_def\<close>)
  qed
qed

lemma runUpto_inv: "runInv cs n (runUpto cs n)"
proof (induction n)
  case 0
  show ?case by (rule runInv_0)
next
  case (Suc n)
  then show ?case
    by (cases "inSteepBand (cs ! n)") (simp_all add: runUpto_Suc runStep_in runStep_out)
qed

lemma steepRun_runWithin: "steepRun cs s l = runWithin cs (length cs) s l"
  by (simp add: steepRun_def runWithin_def)

lemma longestSteepRun_none:
  "bestLen (longestSteepRun cs) = 0 \<longleftrightarrow> \<not> list_ex inSteepBand cs"
proof
  assume z: "bestLen (longestSteepRun cs) = 0"
  have "\<not> inSteepBand (cs ! i)" if "i < length cs" for i
  proof
    assume "inSteepBand (cs ! i)"
    then have "runWithin cs (length cs) i 1" using that by (simp add: runWithin_iff)
    from runInvD(7) [OF runUpto_inv this] z show False by (simp add: longestSteepRun_def)
  qed
  then show "\<not> list_ex inSteepBand cs" by (auto simp: list_ex_iff in_set_conv_nth)
next
  assume n: "\<not> list_ex inSteepBand cs"
  show "bestLen (longestSteepRun cs) = 0"
  proof (rule ccontr)
    assume "bestLen (longestSteepRun cs) \<noteq> 0"
    then have pos: "0 < bestLen (runUpto cs (length cs))" by (simp add: longestSteepRun_def)
    from runInvD(6) [OF runUpto_inv pos]
    have "bestStart (runUpto cs (length cs)) < length cs"
      and "inSteepBand (cs ! (bestStart (runUpto cs (length cs)) + 0))"
      using pos unfolding runWithin_iff by (simp, blast)
    then show False using n by (auto simp: list_ex_iff)
  qed
qed

lemma steepFromChunks_null:
  "steepFromChunks smoothEle cs = Inr None \<longleftrightarrow> bestLen (longestSteepRun cs) = 0"
  by (auto simp: steepFromChunks_def Let_def bindE_def atanDeg_def jsRound_def
      split: sum.splits if_splits)

text \<open>
  C6. The scan selects no run (and the analyzer returns null) exactly when no chunk has a
  gradient in the steep band. Otherwise the selected chunks \<open>bestStart .. bestStart +
  bestLen - 1\<close> are a run of consecutive in-band chunks; no run of consecutive in-band chunks
  is longer, whatever its drop; and no run of the same length starts earlier.
\<close>

theorem longestSteepRun_longest_earliest:
  "(bestLen (longestSteepRun cs) = 0 \<longleftrightarrow> \<not> list_ex inSteepBand cs) \<and>
   (steepFromChunks smoothEle cs = Inr None \<longleftrightarrow> \<not> list_ex inSteepBand cs) \<and>
   (0 < bestLen (longestSteepRun cs) \<longrightarrow>
      steepRun cs (bestStart (longestSteepRun cs)) (bestLen (longestSteepRun cs))) \<and>
   (steepRun cs s l \<longrightarrow> l \<le> bestLen (longestSteepRun cs)) \<and>
   (0 < bestLen (longestSteepRun cs) \<and> steepRun cs s (bestLen (longestSteepRun cs)) \<longrightarrow>
      bestStart (longestSteepRun cs) \<le> s)"
  using runInvD(6,7,8) [OF runUpto_inv [of cs "length cs"], folded longestSteepRun_def]
  by (simp add: longestSteepRun_none steepFromChunks_null steepRun_runWithin)

text \<open>
  The theorem at the example chunk list: the first run of three chunks is selected,
  although the run of two chunks before it drops more and the run of three chunks after
  it is as long.
\<close>

theorem longestSteepRun_longest_earliest_witness:
  "list_ex inSteepBand exampleChunks \<and>
   longestSteepRun exampleChunks = \<lparr>bestStart = 3, bestLen = 3, curStart = 7, curLen = 3\<rparr> \<and>
   steepRun exampleChunks 3 3 \<and>
   steepRun exampleChunks 0 2 \<and> 2 \<le> bestLen (longestSteepRun exampleChunks) \<and>
   steepRun exampleChunks 7 3 \<and> bestStart (longestSteepRun exampleChunks) \<le> 7 \<and>
   fold (\<lambda>c s. s + ch_drop c) (take 3 (drop 3 exampleChunks)) 0 <
     fold (\<lambda>c s. s + ch_drop c) (take 2 (drop 0 exampleChunks)) 0"
proof -
  have ev: "longestSteepRun exampleChunks =
      \<lparr>bestStart = 3, bestLen = 3, curStart = 7, curLen = 3\<rparr>"
    by (simp add: longestSteepRun_def runUpto_def runStep_def inSteepBand_def exampleChunks_def
        STEEP_MIN_DEG_def STEEP_MAX_DEG_def upt_rec)
  have run2: "steepRun exampleChunks 0 2"
    by (simp add: steepRun_def exampleChunks_def inSteepBand_def STEEP_MIN_DEG_def
        STEEP_MAX_DEG_def atLeastLessThan_upt upt_rec)
  have run3: "steepRun exampleChunks 7 3"
    by (simp add: steepRun_def exampleChunks_def inSteepBand_def STEEP_MIN_DEG_def
        STEEP_MAX_DEG_def atLeastLessThan_upt upt_rec)
  have drops: "fold (\<lambda>c s. s + ch_drop c) (take 3 (drop 3 exampleChunks)) 0 <
     fold (\<lambda>c s. s + ch_drop c) (take 2 (drop 0 exampleChunks)) 0"
    by (simp add: exampleChunks_def)
  from longestSteepRun_longest_earliest [of exampleChunks "[]" 0 2]
    longestSteepRun_longest_earliest [of exampleChunks "[]" 7 3] run2 run3 ev drops
  show ?thesis by simp
qed

subsection \<open>The descent evaluator\<close>

lemma hopM_in_range:
  "Suc 0 \<le> i \<Longrightarrow> i < length points \<Longrightarrow> hopM points i = Inr (hopDist points i)"
  by (simp add: hopM_def hopDist_def)

lemma foldE_horizStep:
  assumes "\<forall>i \<in> set js. Suc 0 \<le> i \<and> i < length points"
  shows "foldE (horizStep points) js acc =
           Inr (acc + sum_list (filter (\<lambda>d. \<not> d > 2000) (map (hopDist points) js)))"
  using assms
  by (induction js arbitrary: acc) (simp_all add: horizStep_def hopM_in_range bindE_def)

lemma horizLoop_usable:
  assumes "t < length points"
  shows "foldE (horizStep points) [p + 1..<t + 1] 0 = Inr (usableDistance points p t)"
  using assms by (simp add: foldE_horizStep usableDistance_def)

lemma foldE_invariant:
  assumes "\<And>x s. x \<in> set xs \<Longrightarrow> I s \<Longrightarrow> \<exists>s'. f x s = Inr s' \<and> I s'" and "I s"
  shows "\<exists>s'. foldE f xs s = Inr s' \<and> I s'"
  using assms
proof (induction xs arbitrary: s)
  case Nil
  then show ?case by simp
next
  case (Cons x xs)
  from Cons.prems(1) [of x s] Cons.prems(2) obtain s1 where s1: "f x s = Inr s1" "I s1"
    by auto
  have "\<exists>s'. foldE f xs s1 = Inr s' \<and> I s'"
    by (rule Cons.IH) (use Cons.prems(1) s1(2) in auto)
  then show ?case using s1(1) by simp
qed

lemma chunkStep_inv:
  assumes "chunkInv smoothEle st" and "Suc 0 \<le> i" and "i < length points"
    and "length smoothEle = length points"
  shows "\<exists>st'. chunkStep points smoothEle i st = Inr st' \<and> chunkInv smoothEle st'"
proof -
  have sub: "jsSub (jsIndex smoothEle (chunkStartI st)) (jsIndex smoothEle i) =
      Inr (orZero (smoothEle ! chunkStartI st) - orZero (smoothEle ! i))"
    using assms by (simp add: jsSub_in_range chunkInv_def)
  show ?thesis
    using assms
    by (auto simp: chunkStep_def hopM_in_range bindE_def Let_def sub chunkInv_def chunkOK_def)
qed

lemma buildChunks_ok:
  assumes "p < t" and "t < length points" and "length smoothEle = length points"
  shows "\<exists>cs. buildChunks points smoothEle p t = Inr cs \<and> (\<forall>c \<in> set cs. chunkOK smoothEle c)"
proof -
  have "\<exists>st'. foldE (chunkStep points smoothEle) [p + 1..<t + 1]
            \<lparr>chunks = [], chunkStartI = p, chunkDist = 0\<rparr> = Inr st' \<and> chunkInv smoothEle st'"
  proof (rule foldE_invariant)
    show "chunkInv smoothEle \<lparr>chunks = [], chunkStartI = p, chunkDist = 0\<rparr>"
      using assms by (simp add: chunkInv_def)
    show "\<exists>s'. chunkStep points smoothEle x s = Inr s' \<and> chunkInv smoothEle s'"
      if "x \<in> set [p + 1..<t + 1]" and "chunkInv smoothEle s" for x s
      using that assms by (intro chunkStep_inv) auto
  qed
  then show ?thesis by (auto simp: buildChunks_def bindE_def chunkInv_def)
qed

lemma fold_dist_lower:
  assumes "\<forall>c \<in> set xs. CHUNK_DIST_M \<le> ch_dist c"
  shows "a + CHUNK_DIST_M * real (length xs) \<le> fold (\<lambda>c s. s + ch_dist c) xs a"
  using assms
proof (induction xs arbitrary: a)
  case Nil
  then show ?case by simp
next
  case (Cons x xs)
  have "a + ch_dist x + CHUNK_DIST_M * real (length xs) \<le> fold (\<lambda>c s. s + ch_dist c) xs (a + ch_dist x)"
    by (rule Cons.IH) (use Cons.prems in simp)
  then show ?case using Cons.prems by (simp add: algebra_simps)
qed

lemma steepFromChunks_ok:
  assumes "\<forall>c \<in> set cs. chunkOK smoothEle c"
  shows "\<exists>ss. steepFromChunks smoothEle cs = Inr ss"
proof (cases "bestLen (longestSteepRun cs) = 0")
  case True
  then show ?thesis by (simp add: steepFromChunks_def)
next
  case False
  define r where "r = longestSteepRun cs"
  define sc where "sc = take (bestLen r) (drop (bestStart r) cs)"
  have pos: "0 < bestLen r" using False by (simp add: r_def)
  from runInvD(6) [OF runUpto_inv [of cs "length cs"], folded longestSteepRun_def r_def, OF pos]
  have within: "bestStart r + bestLen r \<le> length cs" by (simp add: runWithin_iff)
  then have ne: "sc \<noteq> []" using pos by (simp add: sc_def)
  have sub: "set sc \<subseteq> set cs"
    unfolding sc_def by (meson set_take_subset set_drop_subset subset_trans)
  then have ok: "\<forall>c \<in> set sc. chunkOK smoothEle c" using assms by blast
  then have "0 + CHUNK_DIST_M * real (length sc) \<le> fold (\<lambda>c s. s + ch_dist c) sc 0"
    by (intro fold_dist_lower) (simp add: chunkOK_def)
  moreover have "0 < CHUNK_DIST_M * real (length sc)" using ne by (simp add: CHUNK_DIST_M_def)
  ultimately have dist: "fold (\<lambda>c s. s + ch_dist c) sc 0 \<noteq> 0"
    by linarith
  have "sc ! 0 \<in> set sc" and "sc ! (length sc - Suc 0) \<in> set sc" using ne by simp_all
  then have i0: "ch_startI (sc ! 0) < length smoothEle"
    and i1: "ch_endI (sc ! (length sc - Suc 0)) < length smoothEle"
    using ok by (auto simp: chunkOK_def)
  show ?thesis
    using False ne dist
    by (simp add: steepFromChunks_def Let_def r_def [symmetric] sc_def [symmetric] atanDeg_def
        bindE_def jsRound_in_range [OF i0] jsRound_in_range [OF i1])
qed

lemma findLongestSteepSegment_ok:
  assumes "p < t" and "t < length points" and "length smoothEle = length points"
  shows "\<exists>ss. findLongestSteepSegment points smoothEle p t = Inr ss"
  using buildChunks_ok [OF assms] steepFromChunks_ok
  by (fastforce simp: findLongestSteepSegment_def bindE_def)

lemma usableDistance_empty: "t \<le> p \<Longrightarrow> usableDistance points p t = 0"
  by (simp add: usableDistance_def)

lemma analyzeDescentSegment_in_range:
  assumes "t < length points" and "length smoothEle = length points"
  shows "analyzeDescentSegment points smoothEle p t =
     (if usableDistance points p t < 10 then Inr None
      else Inr (Some \<lparr>verticalDrop = js_round (orZero (smoothEle ! p) - orZero (smoothEle ! t)),
              horizDistM = js_round (usableDistance points p t),
              avgGradientDeg =
                js_round (arctan ((orZero (smoothEle ! p) - orZero (smoothEle ! t)) /
                    usableDistance points p t) * (180 / pi) * 10) / 10,
              an_peakEle = js_round (orZero (smoothEle ! p)),
              an_troughEle = js_round (orZero (smoothEle ! t)),
              steepSegment = projr (findLongestSteepSegment points smoothEle p t)\<rparr>))"
proof (cases "usableDistance points p t < 10")
  case True
  then show ?thesis
    unfolding analyzeDescentSegment_def horizLoop_usable [OF assms(1)]
    by (simp add: bindE_def)
next
  case False
  then have lt: "p < t" using usableDistance_empty [of t p points] by (cases "p < t") simp_all
  then have pr: "p < length smoothEle" and tr: "t < length smoothEle" using assms by simp_all
  from findLongestSteepSegment_ok [OF lt assms] obtain ss where
    ss: "findLongestSteepSegment points smoothEle p t = Inr ss" by blast
  show ?thesis
    unfolding analyzeDescentSegment_def horizLoop_usable [OF assms(1)]
    using False ss
    by (simp add: bindE_def jsSub_in_range [OF pr tr] jsRound_in_range [OF pr]
        jsRound_in_range [OF tr])
qed

text \<open>
  C8. For a segment whose indices lie inside the point array, with an elevation array of
  the same length, the evaluator returns null exactly when the usable horizontal distance
  of the span (the hops of more than 2000 m left out) is below 10 m, and returns an
  analysis exactly when it is not.
\<close>

theorem analyzeDescentSegment_null_iff:
  assumes "troughI' < length points" and "length smoothEle = length points"
  shows "(analyzeDescentSegment points smoothEle peakI' troughI' = Inr None \<longleftrightarrow>
            usableDistance points peakI' troughI' < 10) \<and>
         (returnsAnalysis (analyzeDescentSegment points smoothEle peakI' troughI') \<longleftrightarrow>
            \<not> usableDistance points peakI' troughI' < 10)"
  by (simp add: analyzeDescentSegment_in_range [OF assms] returnsAnalysis_def)

lemma inSteepBand_drop_pos:
  assumes "chunkOK smoothEle c" and "inSteepBand c"
  shows "0 < ch_drop c"
proof -
  have "0 < ch_grad c" using assms(2) by (simp add: inSteepBand_def STEEP_MIN_DEG_def)
  moreover have "ch_grad c = arctan (max 0 (ch_drop c) / ch_dist c) * (180 / pi)"
    using assms(1) unfolding chunkOK_def by blast
  ultimately have "0 < arctan (max 0 (ch_drop c) / ch_dist c) * (180 / pi)"
    by (simp only:)
  moreover have "0 < 180 / pi" by simp
  ultimately have "0 < arctan (max 0 (ch_drop c) / ch_dist c)"
    by (rule zero_less_mult_pos2)
  then have "0 < max 0 (ch_drop c) / ch_dist c" by (simp only: zero_less_arctan_iff)
  moreover have "0 < ch_dist c" using assms(1) by (simp add: chunkOK_def CHUNK_DIST_M_def)
  ultimately have "0 < max 0 (ch_drop c)" by (simp add: zero_less_divide_iff)
  then show ?thesis by (simp add: max_def split: if_splits)
qed

lemma fold_drop_nonneg:
  "\<forall>c \<in> set xs. 0 \<le> ch_drop c \<Longrightarrow> 0 \<le> a \<Longrightarrow> 0 \<le> fold (\<lambda>c s. s + ch_drop c) xs a"
  by (induction xs arbitrary: a) simp_all

lemma js_round_nonneg: "0 \<le> x \<Longrightarrow> 0 \<le> js_round x"
  unfolding js_round_def by simp

lemma selected_in_band:
  assumes "0 < bestLen (longestSteepRun cs)"
  shows "\<forall>c \<in> set (take (bestLen (longestSteepRun cs)) (drop (bestStart (longestSteepRun cs)) cs)).
           inSteepBand c"
proof -
  define r where "r = longestSteepRun cs"
  from runInvD(6) [OF runUpto_inv [of cs "length cs"], folded longestSteepRun_def r_def] assms
  have w: "runWithin cs (length cs) (bestStart r) (bestLen r)" by (simp add: r_def)
  have "inSteepBand (take (bestLen r) (drop (bestStart r) cs) ! k)"
    if "k < length (take (bestLen r) (drop (bestStart r) cs))" for k
    using that w by (simp add: runWithin_iff)
  then show ?thesis unfolding r_def [symmetric] by (auto simp: in_set_conv_nth simp del: length_take nth_take)
qed

lemma steepFromChunks_nonneg:
  assumes ok: "\<forall>c \<in> set cs. chunkOK smoothEle c"
    and res: "steepFromChunks smoothEle cs = Inr (Some ss)"
  shows "0 \<le> ss_verticalDrop ss"
proof -
  define r where "r = longestSteepRun cs"
  define sc where "sc = take (bestLen r) (drop (bestStart r) cs)"
  have pos: "0 < bestLen r"
    using res by (auto simp: steepFromChunks_def Let_def r_def split: if_splits)
  have "set sc \<subseteq> set cs"
    unfolding sc_def by (meson set_take_subset set_drop_subset subset_trans)
  moreover have "\<forall>c \<in> set sc. inSteepBand c"
    using selected_in_band [of cs] pos by (simp add: r_def sc_def)
  ultimately have "\<forall>c \<in> set sc. 0 \<le> ch_drop c"
    using ok inSteepBand_drop_pos by (meson less_imp_le subsetD)
  then have "0 \<le> fold (\<lambda>c s. s + ch_drop c) sc 0" by (rule fold_drop_nonneg) simp
  then have "0 \<le> js_round (fold (\<lambda>c s. s + ch_drop c) sc 0)" by (rule js_round_nonneg)
  moreover have "ss_verticalDrop ss = js_round (fold (\<lambda>c s. s + ch_drop c) sc 0)"
    using res pos
    by (auto simp: steepFromChunks_def Let_def r_def [symmetric] sc_def [symmetric] bindE_def
        split: if_splits sum.splits)
  ultimately show ?thesis by simp
qed

lemma findLongestSteepSegment_nonneg:
  assumes "p < t" and "t < length points" and "length smoothEle = length points"
    and "findLongestSteepSegment points smoothEle p t = Inr (Some ss)"
  shows "0 \<le> ss_verticalDrop ss"
proof -
  from buildChunks_ok [OF assms(1-3)] obtain cs where
    cs: "buildChunks points smoothEle p t = Inr cs" "\<forall>c \<in> set cs. chunkOK smoothEle c" by blast
  then have "steepFromChunks smoothEle cs = Inr (Some ss)"
    using assms(4) by (simp add: findLongestSteepSegment_def bindE_def)
  from steepFromChunks_nonneg [OF cs(2) this] show ?thesis .
qed

lemma descentScore_pos:
  assumes "1 \<le> verticalDrop a"
    and "\<And>ss. steepSegment a = Some ss \<Longrightarrow> 0 \<le> ss_verticalDrop ss"
  shows "0 < descentScore (Some a)"
proof -
  define s3 where "s3 = (case steepSegment a of
       None \<Rightarrow> 0 + min (verticalDrop a) 1200 / 12 + max 0 (50 - \<bar>avgGradientDeg a - 30\<bar> * 5)
     | Some ss \<Rightarrow> 0 + min (verticalDrop a) 1200 / 12 + max 0 (50 - \<bar>avgGradientDeg a - 30\<bar> * 5)
         + min (ss_verticalDrop ss) 500 / 10)"
  have "1 / 12 \<le> min (verticalDrop a) 1200 / 12" using assms(1) by simp
  moreover have "0 \<le> min (ss_verticalDrop ss) 500 / 10" if "steepSegment a = Some ss" for ss
    using assms(2) [OF that] by simp
  ultimately have "1 / 12 \<le> s3"
    unfolding s3_def by (cases "steepSegment a") (simp_all add: add_increasing2)
  then have "5 / 6 \<le> s3 * 10" by simp
  then have "js_round (5 / 6) \<le> js_round (s3 * 10)" by (rule js_round_mono)
  moreover have "js_round (5 / 6) = 1" by (simp add: js_round_def)
  ultimately have "0 < js_round (s3 * 10) / 10" by simp
  moreover have "descentScore (Some a) = js_round (s3 * 10) / 10"
    by (cases "steepSegment a") (simp_all add: descentScore_def s3_def Let_def)
  ultimately show ?thesis by simp
qed

text \<open>A single segment in range, long enough and dropping at least a metre, is kept.\<close>

lemma bestDescent_single:
  assumes "t < length points" and "length smoothEle = length points"
    and "\<not> usableDistance points p t < 10"
    and "1 \<le> js_round (orZero (smoothEle ! p) - orZero (smoothEle ! t))"
  shows "\<exists>a. bestDescent points smoothEle [\<lparr>seg_peakI = p, seg_troughI = t, seg_drop = d\<rparr>] =
           Inr \<lparr>bestAnalysis = Some a, bestScore = descentScore (Some a)\<rparr>"
proof -
  from analyzeDescentSegment_in_range [OF assms(1,2), of p] assms(3) obtain a where
    a: "analyzeDescentSegment points smoothEle p t = Inr (Some a)"
      "verticalDrop a = js_round (orZero (smoothEle ! p) - orZero (smoothEle ! t))"
      "steepSegment a = projr (findLongestSteepSegment points smoothEle p t)"
    by simp
  have lt: "p < t" using assms(3) usableDistance_empty [of t p points] by (cases "p < t") simp_all
  have "0 \<le> ss_verticalDrop ss" if "steepSegment a = Some ss" for ss
  proof -
    from findLongestSteepSegment_ok [OF lt assms(1,2)] obtain r where
      r: "findLongestSteepSegment points smoothEle p t = Inr r" by blast
    then have "r = Some ss" using a(3) that by simp
    with r findLongestSteepSegment_nonneg [OF lt assms(1,2)] show ?thesis by simp
  qed
  then have "0 < descentScore (Some a)" using assms(4) a(2) by (intro descentScore_pos) simp_all
  then show ?thesis using a(1) by (simp add: bestDescent_def bestStep_def bindE_def)
qed

subsection \<open>Distances along a meridian\<close>

lemma haversineKm_same: "haversineKm la lo la lo = 0"
  by (simp add: haversineKm_def js_atan2_def)

lemma haversineKm_meridian:
  assumes "la1 \<le> la2" and "la2 - la1 < 180"
  shows "haversineKm la1 lo la2 lo = 6371 * ((la2 - la1) * pi / 180)"
proof -
  define x where "x = (la2 - la1) * pi / 180 / 2"
  have x0: "0 \<le> x" using assms(1) by (simp add: x_def)
  have "(la2 - la1) * pi < 180 * pi" using assms(2) by simp
  then have x1: "x < pi / 2" by (simp add: x_def)
  have s: "0 \<le> sin x" using x0 x1 by (intro sin_ge_zero) simp_all
  have c: "0 < cos x" using x0 x1 by (intro cos_gt_zero_pi) simp_all
  have a: "(sin x)\<^sup>2 + cos (la1 * pi / 180) * cos (la2 * pi / 180) * (sin ((lo - lo) * pi / 180 / 2))\<^sup>2
      = (sin x)\<^sup>2" by simp
  have sq1: "sqrt ((sin x)\<^sup>2) = sin x" using s by simp
  have "1 - (sin x)\<^sup>2 = (cos x)\<^sup>2" by (simp add: cos_squared_eq)
  then have sq2: "sqrt (1 - (sin x)\<^sup>2) = cos x" using c by simp
  have "js_atan2 (sin x) (cos x) = arctan (tan x)" using c by (simp add: js_atan2_def tan_def)
  also have "\<dots> = x" using x0 x1 by (intro arctan_tan) simp_all
  finally have at: "js_atan2 (sin x) (cos x) = x" .
  have "haversineKm la1 lo la2 lo = 6371 * 2 * js_atan2 (sqrt ((sin x)\<^sup>2)) (sqrt (1 - (sin x)\<^sup>2))"
    unfolding haversineKm_def Let_def x_def [symmetric] by simp
  also have "\<dots> = 6371 * 2 * x" by (simp only: sq1 sq2 at)
  finally show ?thesis by (simp add: x_def)
qed

subsection \<open>The route loops\<close>

lemma tourBest_cases:
  "tourBest points =
     (if findDescentSegments (map ele points) = []
      then bestDescent (rev points) (map ele (rev points)) (findDescentSegments (map ele (rev points)))
      else bestDescent points (map ele points) (findDescentSegments (map ele points)))"
  by (simp add: tourBest_def Let_def)

lemma toPoint_ele: "map ele (map toPoint cs) = rawEle cs"
  by (auto simp: rawEle_def toPoint_def orZero_def split: option.splits)

subsection \<open>The example route\<close>

lemma descentPoints_toPoint: "map toPoint descentCoords = descentPoints"
  by (simp add: descentCoords_def descentPoints_def toPoint_def orZero_def)

lemma descent_segments:
  "findDescentSegments (map ele descentPoints) =
     [\<lparr>seg_peakI = 0, seg_troughI = 4, seg_drop = 900\<rparr>]"
  by (simp add: descentPoints_def findDescentSegments_def scanUpto_def scanStep_def scanInit_def
      firstOrZero_def orZero_def pushIfSignificant_def MIN_DROP_M_def MIN_CLIMB_TO_RESET_def)

lemma climb_segments: "findDescentSegments (map ele climbPoints) = []"
  by (simp add: climbPoints_def descentPoints_def findDescentSegments_def scanUpto_def
      scanStep_def scanInit_def firstOrZero_def orZero_def pushIfSignificant_def MIN_DROP_M_def
      MIN_CLIMB_TO_RESET_def)

lemma hopDist_meridian:
  assumes "lon (ps ! (i - 1)) = lon (ps ! i)" and "lat (ps ! (i - 1)) \<le> lat (ps ! i)"
    and "lat (ps ! i) - lat (ps ! (i - 1)) < 180"
  shows "hopDist ps i = 6371 * ((lat (ps ! i) - lat (ps ! (i - 1))) * pi / 180) * 1000"
  unfolding hopDist_def assms(1) by (simp only: haversineKm_meridian [OF assms(2,3)])

lemma descent_hops:
  "map (hopDist descentPoints) [0 + 1..<4 + 1] =
     [6371 / 45 * pi, 6371 / 45 * pi, 6371 / 45 * pi, 6371 / 45 * pi]"
proof -
  have h1: "hopDist descentPoints (Suc 0) = 6371 / 45 * pi"
    using hopDist_meridian [of descentPoints "Suc 0"] by (simp add: descentPoints_def)
  have h2: "hopDist descentPoints 2 = 6371 / 45 * pi"
    using hopDist_meridian [of descentPoints 2] by (simp add: descentPoints_def)
  have h3: "hopDist descentPoints 3 = 6371 / 45 * pi"
    using hopDist_meridian [of descentPoints 3] by (simp add: descentPoints_def)
  have h4: "hopDist descentPoints 4 = 6371 / 45 * pi"
    using hopDist_meridian [of descentPoints 4] by (simp add: descentPoints_def)
  have "[0 + 1..<4 + 1] = [Suc 0, 2, 3, 4]" by (simp add: upt_rec)
  then show ?thesis
    by (simp only: list.map h1 h2 h3 h4)
qed

lemma descent_usable: "usableDistance descentPoints 0 4 = 4 * (6371 / 45 * pi)"
proof -
  have "\<not> 6371 / 45 * pi > 2000" using pi_less_4 by simp
  then show ?thesis unfolding usableDistance_def descent_hops by simp
qed

lemma descent_usable_long: "\<not> usableDistance descentPoints 0 4 < 10"
  using pi_ge_two by (simp add: descent_usable)

lemma descent_best: "foundBest (directPipeline descentPoints)"
proof -
  have "\<exists>a. bestDescent descentPoints (map ele descentPoints)
            [\<lparr>seg_peakI = 0, seg_troughI = 4, seg_drop = 900\<rparr>] =
           Inr \<lparr>bestAnalysis = Some a, bestScore = descentScore (Some a)\<rparr>"
    by (rule bestDescent_single)
      (simp_all add: descent_usable_long, simp_all add: descentPoints_def orZero_def js_round_def)
  then show ?thesis
    by (auto simp: directPipeline_def descent_segments foundBest_def)
qed

lemma descentTour_result: "producesResult (analyzeTour descentTour)"
proof -
  have near: "haversineKm (p_lat TROMSO) (p_lon TROMSO) (lat (descentPoints ! 0))
      (lon (descentPoints ! 0)) = 0"
    by (simp add: TROMSO_def descentPoints_def haversineKm_same)
  have "tourBest descentPoints = directPipeline descentPoints"
    by (simp add: tourBest_cases directPipeline_def descent_segments)
  with descent_best obtain b where b: "tourBest descentPoints = Inr b" "bestAnalysis b \<noteq> None"
    by (auto simp: foundBest_def split: sum.splits)
  have "length descentCoords = 5" by (simp add: descentCoords_def)
  moreover have "c0 (descentCoords ! 0) = 18.9553" "c1 (descentCoords ! 0) = 69.6492"
    by (simp_all add: descentCoords_def)
  ultimately show ?thesis
    using b near
    by (auto simp: analyzeTour_def descentTour_def Let_def TROMSO_BBOX_def MAX_DRIVE_KM_def
        descentPoints_toPoint bindE_def producesResult_def)
qed

text \<open>
  The theorem at the example route: the whole span is long enough and is analysed, the
  empty span from index 2 to index 2 is not.
\<close>

theorem analyzeDescentSegment_null_iff_witness:
  "4 < length descentPoints \<and> length (map ele descentPoints) = length descentPoints \<and>
   \<not> usableDistance descentPoints 0 4 < 10 \<and>
   returnsAnalysis (analyzeDescentSegment descentPoints (map ele descentPoints) 0 4) \<and>
   usableDistance descentPoints 2 2 < 10 \<and>
   analyzeDescentSegment descentPoints (map ele descentPoints) 2 2 = Inr None"
proof -
  have len: "4 < length descentPoints" "2 < length descentPoints"
    "length (map ele descentPoints) = length descentPoints"
    by (simp_all add: descentPoints_def)
  have short: "usableDistance descentPoints 2 2 < 10" by (simp add: usableDistance_empty)
  from analyzeDescentSegment_null_iff [OF len(1,3), of 0]
    analyzeDescentSegment_null_iff [OF len(2,3), of 2] len descent_usable_long short
  show ?thesis by blast
qed

subsection \<open>Route gates, the reversed retry and the catalog adapter\<close>

text \<open>
  C2 (as amended). A local track of fewer than 50 points is skipped before smoothing and
  segmentation and pushes no result; a catalog route is skipped when it has no coordinates
  or fewer than 5 of them.
\<close>

theorem short_routes_skipped:
  "(length points < 50 \<longrightarrow> analyzeGpxTrack points nm = Inr None) \<and>
   (coordinates t = None \<longrightarrow> analyzeTour t = Inr None) \<and>
   (coordinates t = Some cs \<and> length cs < 5 \<longrightarrow> analyzeTour t = Inr None)"
  by (simp add: analyzeGpxTrack_def analyzeTour_def)

text \<open>
  The theorem at the five-point example route read as a local track, at a catalog route
  made of its first four coordinates, and at a catalog entry without coordinates.
\<close>

theorem short_routes_skipped_witness:
  "length descentPoints < 50 \<and> analyzeGpxTrack descentPoints ''Nordover'' = Inr None \<and>
   coordinates \<lparr>t_name = ''Kort'', coordinates = Some (take 4 descentCoords)\<rparr> =
     Some (take 4 descentCoords) \<and>
   length (take 4 descentCoords) < 5 \<and>
   analyzeTour \<lparr>t_name = ''Kort'', coordinates = Some (take 4 descentCoords)\<rparr> = Inr None \<and>
   analyzeTour \<lparr>t_name = ''Tom'', coordinates = None\<rparr> = Inr None"
  using short_routes_skipped [of descentPoints "''Nordover''"
      "\<lparr>t_name = ''Kort'', coordinates = Some (take 4 descentCoords)\<rparr>" "take 4 descentCoords"]
    short_routes_skipped [of "[]" "[]" "\<lparr>t_name = ''Tom'', coordinates = None\<rparr>" "[]"]
  by (simp add: descentPoints_def descentCoords_def)

text \<open>
  C2 as the specification states it fails for the catalog: the example route has five
  coordinates, fewer than 50, and yields a Scored Result.
\<close>

theorem catalog_route_under_50_counterexample:
  "coordinates descentTour = Some descentCoords \<and> length descentCoords < 50 \<and>
   producesResult (analyzeTour descentTour)"
  using descentTour_result by (simp add: descentTour_def descentCoords_def)

lemma bestDescent_Nil:
  "bestDescent points smoothEle [] = Inr \<lparr>bestAnalysis = None, bestScore = 0\<rparr>"
  by (simp add: bestDescent_def)

lemma rev_climbPoints: "rev climbPoints = descentPoints"
  by (simp add: climbPoints_def)

text \<open>
  C9. When segmentation of a catalog route in its given direction finds no segment, the
  best analysis kept is that of the pipeline run directly on the reversed points with the
  reversed elevations (and so equals what the route given in reversed order yields); if
  the reversed direction has no segment either, nothing is kept and no further attempt is
  made; when the given direction has a segment, the reversed direction is not used.
\<close>

theorem tourBest_reverse_fallback:
  "(findDescentSegments (map ele points) = [] \<longrightarrow>
      tourBest points = directPipeline (rev points) \<and>
      tourBest points =
        bestDescent (rev points) (rev (map ele points))
          (findDescentSegments (rev (map ele points))) \<and>
      tourBest (rev points) = tourBest points) \<and>
   (findDescentSegments (map ele points) = [] \<and>
    findDescentSegments (map ele (rev points)) = [] \<longrightarrow>
      tourBest points = Inr \<lparr>bestAnalysis = None, bestScore = 0\<rparr>) \<and>
   (findDescentSegments (map ele points) \<noteq> [] \<longrightarrow> tourBest points = directPipeline points)"
  by (simp add: tourBest_cases directPipeline_def rev_map bestDescent_Nil)

text \<open>
  The theorem at the example route travelled uphill (no segment forwards, the descent
  found after reversal), downhill (found forwards), and cut to its first point (no
  segment in either direction).
\<close>

theorem tourBest_reverse_fallback_witness:
  "findDescentSegments (map ele climbPoints) = [] \<and>
   tourBest climbPoints = directPipeline descentPoints \<and>
   foundBest (tourBest climbPoints) \<and>
   findDescentSegments (map ele descentPoints) \<noteq> [] \<and>
   tourBest descentPoints = directPipeline descentPoints \<and>
   findDescentSegments (map ele (take 1 descentPoints)) = [] \<and>
   findDescentSegments (map ele (rev (take 1 descentPoints))) = [] \<and>
   tourBest (take 1 descentPoints) = Inr \<lparr>bestAnalysis = None, bestScore = 0\<rparr>"
proof -
  have up: "tourBest climbPoints = directPipeline descentPoints"
    using tourBest_reverse_fallback [of climbPoints] climb_segments
    by (simp only: rev_climbPoints)
  have down: "tourBest descentPoints = directPipeline descentPoints"
    using tourBest_reverse_fallback [of descentPoints] descent_segments by simp
  have one: "findDescentSegments (map ele (take 1 descentPoints)) = []"
    "findDescentSegments (map ele (rev (take 1 descentPoints))) = []"
    by (simp_all add: descentPoints_def findDescentSegments_def scanUpto_def scanInit_def
        firstOrZero_def orZero_def pushIfSignificant_def MIN_DROP_M_def)
  have none: "tourBest (take 1 descentPoints) = Inr \<lparr>bestAnalysis = None, bestScore = 0\<rparr>"
    using tourBest_reverse_fallback [of "take 1 descentPoints"] one by blast
  show ?thesis
    using up down none one descent_best climb_segments descent_segments by simp
qed

text \<open>
  C10. Every sample the adapter makes of a catalog coordinate has an elevation: the third
  coordinate, or 0 where it is missing, null or zero. The array of these raw elevations,
  and not a smoothed series, is what segmentation and evaluation of a catalog route run on,
  in the given or in the reversed direction.
\<close>

theorem catalog_adapter_elevations:
  "(\<forall>p \<in> set (map toPoint cs). ele p \<noteq> None) \<and>
   map ele (map toPoint cs) = rawEle cs \<and>
   (findDescentSegments (rawEle cs) \<noteq> [] \<longrightarrow>
      tourBest (map toPoint cs) =
        bestDescent (map toPoint cs) (rawEle cs) (findDescentSegments (rawEle cs))) \<and>
   (findDescentSegments (rawEle cs) = [] \<longrightarrow>
      tourBest (map toPoint cs) =
        bestDescent (rev (map toPoint cs)) (rev (rawEle cs))
          (findDescentSegments (rev (rawEle cs))))"
proof -
  have e: "map ele (map toPoint cs) = rawEle cs" by (rule toPoint_ele)
  have "map ele (rev (map toPoint cs)) = rev (map ele (map toPoint cs))"
    by (simp only: rev_map)
  then have r: "map ele (rev (map toPoint cs)) = rev (rawEle cs)" by (simp only: e)
  have t: "tourBest (map toPoint cs) =
     (if findDescentSegments (rawEle cs) = []
      then bestDescent (rev (map toPoint cs)) (rev (rawEle cs))
             (findDescentSegments (rev (rawEle cs)))
      else bestDescent (map toPoint cs) (rawEle cs) (findDescentSegments (rawEle cs)))"
    using tourBest_cases [of "map toPoint cs"] by (simp only: e r)
  have "\<forall>p \<in> set (map toPoint cs). ele p \<noteq> None" by (simp add: toPoint_def)
  then show ?thesis using e t by simp
qed

text \<open>
  The theorem at three coordinates with a missing, a zero and a given elevation, and at
  the example route.
\<close>

theorem catalog_adapter_elevations_witness:
  "map ele (map toPoint [\<lparr>c0 = 19, c1 = 69.5, c2 = None\<rparr>, \<lparr>c0 = 19, c1 = 69.5, c2 = Some 0\<rparr>,
      \<lparr>c0 = 19, c1 = 69.5, c2 = Some 320\<rparr>]) = [Some 0, Some 0, Some 320] \<and>
   findDescentSegments (rawEle descentCoords) \<noteq> [] \<and>
   tourBest (map toPoint descentCoords) =
     bestDescent descentPoints [Some 1000, Some 775, Some 550, Some 325, Some 100]
       [\<lparr>seg_peakI = 0, seg_troughI = 4, seg_drop = 900\<rparr>]"
proof -
  have r: "rawEle descentCoords = [Some 1000, Some 775, Some 550, Some 325, Some 100]"
    by (simp add: rawEle_def descentCoords_def)
  have s: "findDescentSegments [Some 1000, Some 775, Some 550, Some 325, Some 100] =
      [\<lparr>seg_peakI = 0, seg_troughI = 4, seg_drop = 900\<rparr>]"
    using descent_segments by (simp add: descentPoints_def)
  have a: "map ele (map toPoint [\<lparr>c0 = 19, c1 = 69.5, c2 = None\<rparr>,
      \<lparr>c0 = 19, c1 = 69.5, c2 = Some 0\<rparr>, \<lparr>c0 = 19, c1 = 69.5, c2 = Some 320\<rparr>]) =
      [Some 0, Some 0, Some 320]"
    using catalog_adapter_elevations [of "[\<lparr>c0 = 19, c1 = 69.5, c2 = None\<rparr>,
        \<lparr>c0 = 19, c1 = 69.5, c2 = Some 0\<rparr>, \<lparr>c0 = 19, c1 = 69.5, c2 = Some 320\<rparr>]"]
    by (simp add: rawEle_def)
  have b: "findDescentSegments (rawEle descentCoords) \<noteq> []" by (simp add: r s)
  have "tourBest (map toPoint descentCoords) =
     bestDescent (map toPoint descentCoords) (rawEle descentCoords)
       (findDescentSegments (rawEle descentCoords))"
    using catalog_adapter_elevations [of descentCoords] b by blast
  then have c: "tourBest (map toPoint descentCoords) =
     bestDescent descentPoints [Some 1000, Some 775, Some 550, Some 325, Some 100]
       [\<lparr>seg_peakI = 0, seg_troughI = 4, seg_drop = 900\<rparr>]"
    by (simp only: r s descentPoints_toPoint)
  show ?thesis using a b c by blast
qed

end
